theory Spec2Isabelle
  imports Complex_Main
begin

section \<open>JavaScript numbers\<close>

text \<open>
  Every quantity of the program is a JavaScript number.  The model keeps the three
  non-finite IEEE values apart from the finite ones, and takes a finite number to be an
  ideal real: rounding and overflow are not modelled.  Signed zero is not
  modelled either: a zero is the IEEE \<open>+0\<close>, so \<open>x / 0\<close> takes the sign of \<open>x\<close>.
\<close>

datatype jsnum = Fin real | PInf | NInf | NaN

fun is_finite :: "jsnum \<Rightarrow> bool" where
  "is_finite (Fin _) = True"
| "is_finite _ = False"

fun jadd :: "jsnum \<Rightarrow> jsnum \<Rightarrow> jsnum" where
  "jadd (Fin a) (Fin b) = Fin (a + b)"
| "jadd NaN _ = NaN"
| "jadd _ NaN = NaN"
| "jadd PInf NInf = NaN"
| "jadd NInf PInf = NaN"
| "jadd PInf _ = PInf"
| "jadd _ PInf = PInf"
| "jadd NInf _ = NInf"
| "jadd _ NInf = NInf"

fun jneg :: "jsnum \<Rightarrow> jsnum" where
  "jneg (Fin a) = Fin (- a)"
| "jneg PInf = NInf"
| "jneg NInf = PInf"
| "jneg NaN = NaN"

text \<open>The sign of an infinite product: positive, negative, or undefined at zero.\<close>

fun jinf_signed :: "bool \<Rightarrow> real \<Rightarrow> jsnum" where
  "jinf_signed pos a =
     (if a = 0 then NaN else if (0 < a) = pos then PInf else NInf)"

fun jmul :: "jsnum \<Rightarrow> jsnum \<Rightarrow> jsnum" where
  "jmul (Fin a) (Fin b) = Fin (a * b)"
| "jmul NaN _ = NaN"
| "jmul _ NaN = NaN"
| "jmul PInf (Fin b) = jinf_signed True b"
| "jmul NInf (Fin b) = jinf_signed False b"
| "jmul (Fin a) PInf = jinf_signed True a"
| "jmul (Fin a) NInf = jinf_signed False a"
| "jmul PInf PInf = PInf"
| "jmul NInf NInf = PInf"
| "jmul PInf NInf = NInf"
| "jmul NInf PInf = NInf"

fun jdiv :: "jsnum \<Rightarrow> jsnum \<Rightarrow> jsnum" where
  "jdiv (Fin a) (Fin b) = (if b = 0 then jinf_signed True a else Fin (a / b))"
| "jdiv NaN _ = NaN"
| "jdiv _ NaN = NaN"
| "jdiv (Fin a) PInf = Fin 0"
| "jdiv (Fin a) NInf = Fin 0"
| "jdiv PInf (Fin b) = (if 0 \<le> b then PInf else NInf)"
| "jdiv NInf (Fin b) = (if 0 \<le> b then NInf else PInf)"
| "jdiv PInf _ = NaN"
| "jdiv NInf _ = NaN"

text \<open>The comparisons \<open><\<close> and \<open><=\<close>: false whenever an operand is \<open>NaN\<close>.\<close>

fun jless :: "jsnum \<Rightarrow> jsnum \<Rightarrow> bool" where
  "jless (Fin a) (Fin b) = (a < b)"
| "jless NaN _ = False"
| "jless _ NaN = False"
| "jless _ NInf = False"
| "jless PInf _ = False"
| "jless NInf _ = True"
| "jless _ PInf = True"

fun jle :: "jsnum \<Rightarrow> jsnum \<Rightarrow> bool" where
  "jle (Fin a) (Fin b) = (a \<le> b)"
| "jle NaN _ = False"
| "jle _ NaN = False"
| "jle NInf _ = True"
| "jle _ PInf = True"
| "jle _ NInf = False"
| "jle PInf _ = False"

instantiation jsnum :: "{plus, minus, uminus, times, inverse, ord}"
begin

definition plus_jsnum :: "jsnum \<Rightarrow> jsnum \<Rightarrow> jsnum" where
  "plus_jsnum a b = jadd a b"

definition minus_jsnum :: "jsnum \<Rightarrow> jsnum \<Rightarrow> jsnum" where
  "minus_jsnum a b = jadd a (jneg b)"

definition uminus_jsnum :: "jsnum \<Rightarrow> jsnum" where
  "uminus_jsnum a = jneg a"

definition times_jsnum :: "jsnum \<Rightarrow> jsnum \<Rightarrow> jsnum" where
  "times_jsnum a b = jmul a b"

definition divide_jsnum :: "jsnum \<Rightarrow> jsnum \<Rightarrow> jsnum" where
  "divide_jsnum a b = jdiv a b"

definition inverse_jsnum :: "jsnum \<Rightarrow> jsnum" where
  "inverse_jsnum a = jdiv (Fin 1) a"

definition less_jsnum :: "jsnum \<Rightarrow> jsnum \<Rightarrow> bool" where
  "less_jsnum a b = jless a b"

definition less_eq_jsnum :: "jsnum \<Rightarrow> jsnum \<Rightarrow> bool" where
  "less_eq_jsnum a b = jle a b"

instance ..

end

text \<open>The functions of \<open>Math\<close> that the program calls.\<close>

fun Math_abs :: "jsnum \<Rightarrow> jsnum" where
  "Math_abs (Fin a) = Fin \<bar>a\<bar>"
| "Math_abs PInf = PInf"
| "Math_abs NInf = PInf"
| "Math_abs NaN = NaN"

fun Math_sqrt :: "jsnum \<Rightarrow> jsnum" where
  "Math_sqrt (Fin a) = (if a < 0 then NaN else Fin (sqrt a))"
| "Math_sqrt PInf = PInf"
| "Math_sqrt NInf = NaN"
| "Math_sqrt NaN = NaN"

fun Math_max :: "jsnum \<Rightarrow> jsnum \<Rightarrow> jsnum" where
  "Math_max (Fin a) (Fin b) = Fin (max a b)"
| "Math_max NaN _ = NaN"
| "Math_max _ NaN = NaN"
| "Math_max PInf _ = PInf"
| "Math_max _ PInf = PInf"
| "Math_max NInf b = b"
| "Math_max a NInf = a"

fun Math_min :: "jsnum \<Rightarrow> jsnum \<Rightarrow> jsnum" where
  "Math_min (Fin a) (Fin b) = Fin (min a b)"
| "Math_min NaN _ = NaN"
| "Math_min _ NaN = NaN"
| "Math_min NInf _ = NInf"
| "Math_min _ NInf = NInf"
| "Math_min PInf b = b"
| "Math_min a PInf = a"

fun Math_cos :: "jsnum \<Rightarrow> jsnum" where
  "Math_cos (Fin a) = Fin (cos a)"
| "Math_cos _ = NaN"

fun Math_sin :: "jsnum \<Rightarrow> jsnum" where
  "Math_sin (Fin a) = Fin (sin a)"
| "Math_sin _ = NaN"

section \<open>The analytic solver \<open>CoupledOscillator\<close>\<close>

text \<open>
  The constructor's argument, the four coefficients of one closed-form sum
  \<open>cw1 cos(\<omega>\<^sub>1 t) + sw1 sin(\<omega>\<^sub>1 t) + cw2 cos(\<omega>\<^sub>2 t) + sw2 sin(\<omega>\<^sub>2 t)\<close>, and the object
  that the constructor fills in.
\<close>

record params =
  m1 :: jsnum
  m2 :: jsnum
  k1 :: jsnum
  k2 :: jsnum
  k3 :: jsnum
  x10 :: jsnum
  x20 :: jsnum
  v10 :: jsnum
  v20 :: jsnum

record coeffs =
  cw1 :: jsnum
  sw1 :: jsnum
  cw2 :: jsnum
  sw2 :: jsnum

record CoupledOscillator = params +
  omega1 :: jsnum
  omega2 :: jsnum
  r1 :: jsnum
  r2 :: jsnum
  A1 :: jsnum
  A2 :: jsnum
  B1 :: jsnum
  B2 :: jsnum
  coeffs1 :: coeffs
  coeffs2 :: coeffs

text \<open>The threshold \<open>1e-14\<close> of every guard in \<open>_compute\<close>.\<close>

definition eps14 :: jsnum where
  "eps14 = Fin (1 / 10 ^ 14)"

text \<open>
  \<open>_compute\<close>: the eigenfrequencies, then either the uncoupled special case, which
  returns early, or the eigenvector ratios and the amplitudes.  \<open>(a - b) ** 2\<close> is the
  product of \<open>a - b\<close> with itself, on every value.
\<close>

definition compute :: "params \<Rightarrow> CoupledOscillator" where
  "compute p =
    (let a = (k1 p + k2 p) / m1 p;
         b = (k2 p + k3 p) / m2 p;
         c2 = (k2 p * k2 p) / (m1 p * m2 p);
         disc = Math_sqrt ((a - b) * (a - b) + Fin 4 * c2);
         lam1 = ((a + b) - disc) / Fin 2;
         lam2 = ((a + b) + disc) / Fin 2;
         w1 = Math_sqrt (Math_max (Fin 0) lam1);
         w2 = Math_sqrt (Math_max (Fin 0) lam2)
     in if Math_abs (k2 p) < eps14 then
          (let w1u = Math_sqrt (Math_max (Fin 0) (k1 p / m1 p));
               w2u = Math_sqrt (Math_max (Fin 0) (k3 p / m2 p));
               B1u = (if eps14 < w1u then v10 p / w1u else Fin 0)
           in \<lparr> m1 = m1 p, m2 = m2 p, k1 = k1 p, k2 = k2 p, k3 = k3 p,
                x10 = x10 p, x20 = x20 p, v10 = v10 p, v20 = v20 p,
                omega1 = w1u, omega2 = w2u, r1 = Fin 0, r2 = Fin 0,
                A1 = x10 p, A2 = Fin 0, B1 = B1u, B2 = Fin 0,
                coeffs1 = \<lparr> cw1 = x10 p, sw1 = B1u, cw2 = Fin 0, sw2 = Fin 0 \<rparr>,
                coeffs2 = \<lparr> cw1 = Fin 0, sw1 = Fin 0, cw2 = x20 p,
                            sw2 = (if eps14 < w2u then v20 p / w2u else Fin 0) \<rparr> \<rparr>)
        else
          (let ra = (k1 p + k2 p - lam1 * m1 p) / k2 p;
               rb = (k1 p + k2 p - lam2 * m1 p) / k2 p;
               denom = ra - rb;
               Aa = (if Math_abs denom < eps14 then x10 p
                     else (x20 p - rb * x10 p) / denom);
               Ab = (if Math_abs denom < eps14 then Fin 0 else x10 p - Aa);
               degenerate = (Math_abs denom < eps14 \<or> Math_abs w1 < eps14);
               Ba = (if degenerate then (if eps14 < w1 then v10 p / w1 else Fin 0)
                     else (v20 p - rb * v10 p) / (w1 * denom));
               Bb = (if degenerate then Fin 0
                     else if eps14 < w2 then (v10 p - w1 * Ba) / w2 else Fin 0)
           in \<lparr> m1 = m1 p, m2 = m2 p, k1 = k1 p, k2 = k2 p, k3 = k3 p,
                x10 = x10 p, x20 = x20 p, v10 = v10 p, v20 = v20 p,
                omega1 = w1, omega2 = w2, r1 = ra, r2 = rb,
                A1 = Aa, A2 = Ab, B1 = Ba, B2 = Bb,
                coeffs1 = \<lparr> cw1 = Aa, sw1 = Ba, cw2 = Ab, sw2 = Bb \<rparr>,
                coeffs2 = \<lparr> cw1 = ra * Aa, sw1 = ra * Ba,
                            cw2 = rb * Ab, sw2 = rb * Bb \<rparr> \<rparr>))"

text \<open>
  The constructor destructures its argument, copies the nine parameters and calls
  \<open>_compute\<close>.  Destructuring a missing argument (\<open>undefined\<close>, here \<open>None\<close>) raises a
  \<open>TypeError\<close>; no statement of the constructor or of \<open>_compute\<close> raises anything else, so
  for an object the result is always the oscillator.  \<open>ConfigError\<close> is the error kind that
  the specification names for a non-positive mass.  An object that lacks one of the nine
  fields, or holds something other than a number there, is outside the type \<open>params\<close>.
\<close>

datatype error = ConfigError | TypeError

definition new_CoupledOscillator :: "params option \<Rightarrow> error + CoupledOscillator" where
  "new_CoupledOscillator arg =
    (case arg of None \<Rightarrow> Inl TypeError | Some p \<Rightarrow> Inr (compute p))"

text \<open>
  The evaluators.  \<open>mass === 1\<close> selects the first coefficient group and every other
  value the second.
\<close>

definition position :: "CoupledOscillator \<Rightarrow> int \<Rightarrow> jsnum \<Rightarrow> jsnum" where
  "position osc mass t =
    (let c = (if mass = 1 then coeffs1 osc else coeffs2 osc);
         w1 = omega1 osc; w2 = omega2 osc
     in cw1 c * Math_cos (w1 * t) +
        sw1 c * Math_sin (w1 * t) +
        cw2 c * Math_cos (w2 * t) +
        sw2 c * Math_sin (w2 * t))"

definition velocity :: "CoupledOscillator \<Rightarrow> int \<Rightarrow> jsnum \<Rightarrow> jsnum" where
  "velocity osc mass t =
    (let c = (if mass = 1 then coeffs1 osc else coeffs2 osc);
         w1 = omega1 osc; w2 = omega2 osc
     in - cw1 c * w1 * Math_sin (w1 * t) +
        sw1 c * w1 * Math_cos (w1 * t) +
        - cw2 c * w2 * Math_sin (w2 * t) +
        sw2 c * w2 * Math_cos (w2 * t))"

definition acceleration :: "CoupledOscillator \<Rightarrow> int \<Rightarrow> jsnum \<Rightarrow> jsnum" where
  "acceleration osc mass t =
    (let c = (if mass = 1 then coeffs1 osc else coeffs2 osc);
         w1 = omega1 osc; w2 = omega2 osc
     in - cw1 c * w1 * w1 * Math_cos (w1 * t) -
        sw1 c * w1 * w1 * Math_sin (w1 * t) +
        - cw2 c * w2 * w2 * Math_cos (w2 * t) -
        sw2 c * w2 * w2 * Math_sin (w2 * t))"

section \<open>\<open>firstTimeTo\<close>: coarse scan and bisection\<close>

text \<open>
  The options object: a missing key (\<open>None\<close>) takes the default of the destructuring
  pattern, \<open>tMin = 0\<close>, \<open>tMax = 100\<close>, \<open>dt = 0.01\<close>, \<open>tolerance = 1e-9\<close>.
\<close>

record opts =
  tMin :: "jsnum option"
  tMax :: "jsnum option"
  dt :: "jsnum option"
  tolerance :: "jsnum option"

definition or_default :: "jsnum option \<Rightarrow> jsnum \<Rightarrow> jsnum" where
  "or_default v d = (case v of None \<Rightarrow> d | Some x \<Rightarrow> x)"

text \<open>
  The bisection loop \<open>for (let i = 0; i < 60; i++)\<close>, entered with \<open>i = 0\<close>.  It returns
  the refined time; the second component counts the loop bodies that were entered.
\<close>

function bisect ::
  "(jsnum \<Rightarrow> jsnum) \<Rightarrow> jsnum \<Rightarrow> jsnum \<Rightarrow> nat \<Rightarrow> jsnum \<Rightarrow> jsnum \<Rightarrow> jsnum \<Rightarrow> jsnum \<times> nat"
where
  "bisect fn target tol i lo hi prevF =
    (if i < 60 then
       (let mid = (lo + hi) / Fin 2;
            mf = fn mid - target
        in if Math_abs mf < tol then (mid, i + 1)
           else if prevF * mf \<le> Fin 0 then bisect fn target tol (i + 1) lo mid prevF
           else bisect fn target tol (i + 1) mid hi mf)
     else ((lo + hi) / Fin 2, i))"
  by pat_completeness auto
termination
  by (relation "measure (\<lambda>(fn, target, tol, i, lo, hi, prevF). 60 - i)") auto

text \<open>
  The coarse scan \<open>for (let t = tMin + dt; t <= tMax + dt * 0.5; t += dt)\<close>.  Nothing
  bounds the number of its iterations, so the scan is a partial function: the outer
  \<open>None\<close> is a scan that never returns, \<open>Some None\<close> is the result \<open>null\<close>, and
  \<open>Some (Some t)\<close> is the time \<open>t\<close>.  As everywhere in this model the additions are exact:
  the \<open>k\<close>-th value of \<open>t\<close> is \<open>tMin + k dt\<close>, without the rounding that the accumulation
  has in double precision.
\<close>

partial_function (option) scan ::
  "(jsnum \<Rightarrow> jsnum) \<Rightarrow> jsnum \<Rightarrow> jsnum \<Rightarrow> jsnum \<Rightarrow> jsnum \<Rightarrow>
     jsnum \<Rightarrow> jsnum \<Rightarrow> jsnum \<Rightarrow> jsnum option option"
where
  "scan fn target tmax step tol t prevT prevF =
    (if t \<le> tmax + step * Fin (1 / 2) then
       (let curT = Math_min t tmax;
            curF = fn curT - target
        in if Math_abs curF < tol then Some (Some curT)
           else if prevF * curF < Fin 0 then
             Some (Some (fst (bisect fn target tol 0 prevT curT prevF)))
           else if tmax \<le> curT then Some None
           else scan fn target tmax step tol (t + step) curT curF)
     else Some None)"

text \<open>
  The selector: \<open>'x'\<close> is the position, \<open>'v'\<close> the velocity, and every other value
  falls through to the acceleration.
\<close>

definition quantity_fn :: "CoupledOscillator \<Rightarrow> int \<Rightarrow> string \<Rightarrow> jsnum \<Rightarrow> jsnum" where
  "quantity_fn osc mass quantity =
    (if quantity = ''x'' then position osc mass
     else if quantity = ''v'' then velocity osc mass
     else acceleration osc mass)"

definition firstTimeTo ::
  "CoupledOscillator \<Rightarrow> int \<Rightarrow> string \<Rightarrow> jsnum \<Rightarrow> opts \<Rightarrow> jsnum option option"
where
  "firstTimeTo osc mass quantity target options =
    (let tmin = or_default (tMin options) (Fin 0);
         tmax = or_default (tMax options) (Fin 100);
         step = or_default (dt options) (Fin (1 / 100));
         tol = or_default (tolerance options) (Fin (1 / 10 ^ 9));
         fn = quantity_fn osc mass quantity;
         prevT = tmin;
         prevF = fn tmin - target
     in if Math_abs prevF < tol then Some (Some tmin)
        else scan fn target tmax step tol (tmin + step) prevT prevF)"

section \<open>Fractions: \<open>src/fraction.js\<close>\<close>

text \<open>
  \<open>gcd\<close> and \<open>reduceFraction\<close> receive integer-valued finite numbers at every call of
  the repository (the numerators and denominators of the mediant search), so their
  arguments are integers here and \<open>Math.round\<close> is the identity on them.  After
  \<open>Math.abs\<close> the loop of \<open>gcd\<close> runs on non-negative integers, where \<open>%\<close> is the
  remainder of the naturals.
\<close>

function gcd_while :: "nat \<Rightarrow> nat \<Rightarrow> nat" where
  "gcd_while a b = (if b \<noteq> 0 then gcd_while b (a mod b) else a)"
  by pat_completeness auto
termination
  by (relation "measure (\<lambda>(a, b). b)") auto

definition gcd_fraction :: "int \<Rightarrow> int \<Rightarrow> int" where
  "gcd_fraction a b =
    (let g = gcd_while (nat \<bar>a\<bar>) (nat \<bar>b\<bar>) in if g \<noteq> 0 then int g else 1)"

record fraction =
  num :: jsnum
  den :: jsnum

definition reduceFraction :: "int \<Rightarrow> int \<Rightarrow> fraction" where
  "reduceFraction n d =
    (if d = 0 then \<lparr> num = (if 0 \<le> n then PInf else NInf), den = Fin 1 \<rparr>
     else if n = 0 then \<lparr> num = Fin 0, den = Fin 1 \<rparr>
     else
       (let sign = (if (n < 0) \<noteq> (d < 0) then - 1 else 1 :: int);
            absNum = \<bar>n\<bar>;
            absDen = \<bar>d\<bar>;
            g = gcd_fraction absNum absDen
        in \<lparr> num = Fin (of_int sign) * (Fin (of_int absNum) / Fin (of_int g)),
             den = Fin (of_int absDen) / Fin (of_int g) \<rparr>))"

text \<open>
  The variables of the mediant search, with the loop counter.  The numerators and
  denominators start from integer literals and from \<open>Math.round\<close> of a finite number and
  are only ever added, so they are integers.
\<close>

record sb_state =
  lo_n :: int
  lo_d :: int
  hi_n :: int
  hi_d :: int
  best_n :: int
  best_d :: int
  bestErr :: jsnum
  iter :: nat

text \<open>The statement that ends the search: one of the two \<open>break\<close>s, or the loop condition.\<close>

datatype loop_exit = DenExceeded | TolReached | ExactHit | CapReached

text \<open>
  The loop \<open>for (let iter = 0; iter < 200; iter++)\<close> of \<open>decimalToFraction\<close>, on the
  absolute value \<open>x\<close> of a finite argument.  It returns the final variables together
  with the statement that ended it.
\<close>

function mediant_search ::
  "real \<Rightarrow> jsnum \<Rightarrow> jsnum \<Rightarrow> sb_state \<Rightarrow> sb_state \<times> loop_exit"
where
  "mediant_search x maxDen tol s =
    (if iter s < 200 then
       (let med_n = lo_n s + hi_n s;
            med_d = lo_d s + hi_d s
        in if maxDen < Fin (of_int med_d) then (s, DenExceeded)
           else
             (let medVal = Fin (of_int med_n) / Fin (of_int med_d);
                  err = Math_abs (Fin x - medVal);
                  s1 = (if err < bestErr s
                        then s\<lparr> bestErr := err, best_n := med_n, best_d := med_d \<rparr>
                        else s)
              in if err < tol then (s1, TolReached)
                 else mediant_search x maxDen tol
                        ((if medVal < Fin x
                          then s1\<lparr> lo_n := med_n, lo_d := med_d \<rparr>
                          else s1\<lparr> hi_n := med_n, hi_d := med_d \<rparr>)
                         \<lparr> iter := iter s + 1 \<rparr>)))
     else (s, CapReached))"
  by pat_completeness auto
termination
  by (relation "measure (\<lambda>(x, maxDen, tol, s). 200 - iter s)") auto

text \<open>\<open>Math.round\<close> and \<open>Math.floor\<close> of a finite number.\<close>

definition Math_round :: "real \<Rightarrow> int" where
  "Math_round x = \<lfloor>x + 1 / 2\<rfloor>"

definition Math_floor :: "real \<Rightarrow> int" where
  "Math_floor x = \<lfloor>x\<rfloor>"

text \<open>
  \<open>decimalToFraction(x, maxDen = 10000, tol = 1e-9)\<close>; a missing argument is \<open>None\<close>.
  \<open>Number.isFinite\<close> fails on the two infinities and on \<open>NaN\<close>, and \<open>NaN > 0\<close> is false.
\<close>

definition sb_init :: "real \<Rightarrow> sb_state" where
  "sb_init x =
    \<lparr> lo_n = 0, lo_d = 1, hi_n = 1, hi_d = 0,
      best_n = Math_round x, best_d = 1,
      bestErr = Math_abs (Fin x - Fin (of_int (Math_round x))), iter = 0 \<rparr>"

definition decimalToFraction :: "jsnum \<Rightarrow> jsnum option \<Rightarrow> jsnum option \<Rightarrow> fraction" where
  "decimalToFraction x maxDen tol =
    (let maxDen' = or_default maxDen (Fin 10000);
         tol' = or_default tol (Fin (1 / 10 ^ 9))
     in case x of
          Fin r \<Rightarrow>
            if Math_abs x < tol' then \<lparr> num = Fin 0, den = Fin 1 \<rparr>
            else
              (let sign = (if r < 0 then - 1 else 1 :: int);
                   s = fst (mediant_search \<bar>r\<bar> maxDen' tol' (sb_init \<bar>r\<bar>))
               in reduceFraction (sign * best_n s) (best_d s))
        | _ \<Rightarrow> \<lparr> num = (if Fin 0 < x then PInf else NInf), den = Fin 1 \<rparr>)"

section \<open>Fractions: the standalone \<open>fractions.js\<close>\<close>

text \<open>
  The second implementation has its own \<open>gcd\<close>, which returns \<open>0\<close> for two zeros, its
  own \<open>reduce\<close> on objects with the keys \<open>n\<close> and \<open>d\<close> (the fields \<open>fr_n\<close> and \<open>fr_d\<close>
  here), and \<open>toFraction\<close>, which returns \<open>null\<close> (\<open>None\<close>) where it gives up.
\<close>

definition gcd_Fractions :: "int \<Rightarrow> int \<Rightarrow> int" where
  "gcd_Fractions a b = int (gcd_while (nat \<bar>a\<bar>) (nat \<bar>b\<bar>))"

record frac =
  fr_n :: jsnum
  fr_d :: jsnum

definition reduce :: "int \<Rightarrow> int \<Rightarrow> frac" where
  "reduce n d =
    (if d = 0 then \<lparr> fr_n = Fin (of_int n), fr_d = Fin 0 \<rparr>
     else
       (let g = gcd_Fractions \<bar>n\<bar> \<bar>d\<bar>;
            rn = Fin (of_int n) / Fin (of_int g);
            rd = Fin (of_int d) / Fin (of_int g)
        in if rd < Fin 0 then \<lparr> fr_n = - rn, fr_d = - rd \<rparr>
           else \<lparr> fr_n = rn, fr_d = rd \<rparr>))"

text \<open>
  The loop \<open>for (var iter = 0; iter < 10000; iter++)\<close> of \<open>toFraction\<close>, on the absolute
  value \<open>ax\<close>.
\<close>

function mediant_search_Fractions ::
  "real \<Rightarrow> jsnum \<Rightarrow> sb_state \<Rightarrow> sb_state \<times> loop_exit"
where
  "mediant_search_Fractions ax maxDen s =
    (if iter s < 10000 then
       (let med_n = lo_n s + hi_n s;
            med_d = lo_d s + hi_d s
        in if maxDen < Fin (of_int med_d) then (s, DenExceeded)
           else
             (let val = Fin (of_int med_n) / Fin (of_int med_d);
                  err = Math_abs (Fin ax - val);
                  s1 = (if err < bestErr s
                        then s\<lparr> bestErr := err, best_n := med_n, best_d := med_d \<rparr>
                        else s)
              in if val < Fin ax then
                   mediant_search_Fractions ax maxDen
                     (s1\<lparr> lo_n := med_n, lo_d := med_d, iter := iter s + 1 \<rparr>)
                 else if Fin ax < val then
                   mediant_search_Fractions ax maxDen
                     (s1\<lparr> hi_n := med_n, hi_d := med_d, iter := iter s + 1 \<rparr>)
                 else (s1, ExactHit)))
     else (s, CapReached))"
  by pat_completeness auto
termination
  by (relation "measure (\<lambda>(ax, maxDen, s). 10000 - iter s)") auto

definition sb_init_Fractions :: "real \<Rightarrow> sb_state" where
  "sb_init_Fractions ax =
    (let intPart = Math_floor ax;
         s = \<lparr> lo_n = intPart, lo_d = 1, hi_n = intPart + 1, hi_d = 1,
               best_n = intPart, best_d = 1,
               bestErr = Math_abs (Fin ax - Fin (of_int intPart)), iter = 0 \<rparr>
     in if Math_abs (Fin ax - Fin (of_int (hi_n s))) < bestErr s
        then s\<lparr> bestErr := Math_abs (Fin ax - Fin (of_int (hi_n s))),
                best_n := hi_n s, best_d := hi_d s \<rparr>
        else s)"

definition toFraction :: "jsnum \<Rightarrow> jsnum option \<Rightarrow> frac option" where
  "toFraction x maxDen =
    (let maxDen' = or_default maxDen (Fin 1000)
     in case x of
          Fin r \<Rightarrow>
            if r = 0 then Some \<lparr> fr_n = Fin 0, fr_d = Fin 1 \<rparr>
            else if Fin (10 ^ 10) < Math_abs x then None
            else
              (let negative = (r < 0);
                   ax = \<bar>r\<bar>
               in if ax = of_int (Math_floor ax) then
                    Some \<lparr> fr_n = Fin (of_int (if negative then - Math_round ax
                                                else Math_round ax)),
                           fr_d = Fin 1 \<rparr>
                  else
                    (let s = fst (mediant_search_Fractions ax maxDen' (sb_init_Fractions ax))
                     in Some (reduce (if negative then - best_n s else best_n s) (best_d s))))
        | _ \<Rightarrow> None)"

section \<open>Vocabulary of the statements\<close>

text \<open>A constructor argument whose nine entries are finite numbers.\<close>

definition fin_params ::
  "real \<Rightarrow> real \<Rightarrow> real \<Rightarrow> real \<Rightarrow> real \<Rightarrow> real \<Rightarrow> real \<Rightarrow> real \<Rightarrow> real \<Rightarrow> params"
where
  "fin_params ma mb ka kb kc xa xb va vb =
     \<lparr> m1 = Fin ma, m2 = Fin mb, k1 = Fin ka, k2 = Fin kb, k3 = Fin kc,
       x10 = Fin xa, x20 = Fin xb, v10 = Fin va, v20 = Fin vb \<rparr>"

text \<open>An object none of whose derived fields is \<open>NaN\<close> or infinite.\<close>

definition finite_coeffs :: "coeffs \<Rightarrow> bool" where
  "finite_coeffs c \<longleftrightarrow>
     is_finite (cw1 c) \<and> is_finite (sw1 c) \<and> is_finite (cw2 c) \<and> is_finite (sw2 c)"

definition finite_fields :: "CoupledOscillator \<Rightarrow> bool" where
  "finite_fields osc \<longleftrightarrow>
     is_finite (omega1 osc) \<and> is_finite (omega2 osc) \<and> is_finite (r1 osc) \<and>
     is_finite (r2 osc) \<and> is_finite (A1 osc) \<and> is_finite (A2 osc) \<and>
     is_finite (B1 osc) \<and> is_finite (B2 osc) \<and>
     finite_coeffs (coeffs1 osc) \<and> finite_coeffs (coeffs2 osc)"

text \<open>
  The scan of \<open>firstTimeTo\<close> with finite \<open>tMin = a\<close>, \<open>tMax = b\<close> and \<open>dt = d\<close>: sample \<open>k\<close> is
  taken at \<open>min (a + k d) b\<close>, and it is taken only while \<open>a + k d \<le> b + d / 2\<close>.  The
  residual is the quantity minus the target; a sample is a hit when its residual is within
  the tolerance, and two consecutive samples change sign when the product of their
  residuals is negative.
\<close>

definition sample :: "real \<Rightarrow> real \<Rightarrow> real \<Rightarrow> nat \<Rightarrow> jsnum" where
  "sample a b d k = Fin (min (a + real k * d) b)"

definition sampled :: "real \<Rightarrow> real \<Rightarrow> real \<Rightarrow> nat \<Rightarrow> bool" where
  "sampled a b d k \<longleftrightarrow> a + real k * d \<le> b + d / 2"

definition residual :: "(jsnum \<Rightarrow> jsnum) \<Rightarrow> jsnum \<Rightarrow> jsnum \<Rightarrow> jsnum" where
  "residual fn target t = fn t - target"

definition hit ::
  "(jsnum \<Rightarrow> jsnum) \<Rightarrow> jsnum \<Rightarrow> jsnum \<Rightarrow> real \<Rightarrow> real \<Rightarrow> real \<Rightarrow> nat \<Rightarrow> bool"
where
  "hit fn target tol a b d k \<longleftrightarrow> Math_abs (residual fn target (sample a b d k)) < tol"

definition sign_change ::
  "(jsnum \<Rightarrow> jsnum) \<Rightarrow> jsnum \<Rightarrow> real \<Rightarrow> real \<Rightarrow> real \<Rightarrow> nat \<Rightarrow> bool"
where
  "sign_change fn target a b d k \<longleftrightarrow>
     residual fn target (sample a b d k) * residual fn target (sample a b d (Suc k)) < Fin 0"

text \<open>
  The invariant of a fraction value: numerator and denominator are integers, the
  denominator is positive, the two are coprime, and zero is \<open>0/1\<close>.
\<close>

definition is_integer :: "real \<Rightarrow> bool" where
  "is_integer r \<longleftrightarrow> r = of_int \<lfloor>r\<rfloor>"

definition reduced :: "jsnum \<Rightarrow> jsnum \<Rightarrow> bool" where
  "reduced n d =
    (case (n, d) of
       (Fin p, Fin q) \<Rightarrow>
         is_integer p \<and> is_integer q \<and> 0 < q \<and> gcd \<bar>\<lfloor>p\<rfloor>\<bar> \<lfloor>q\<rfloor> = 1 \<and> (p = 0 \<longrightarrow> q = 1)
     | _ \<Rightarrow> False)"

text \<open>
  The invariants of the mediant search on \<open>x \<ge> 0\<close> with the bound \<open>N\<close>.  The denominators
  stay positive (\<open>hi\<close> starts as \<open>1/0\<close>).  The bracket is unimodular and encloses \<open>x\<close>, the
  best denominator is \<open>1\<close> or within the bound, \<open>bestErr\<close> is the error of the best
  fraction, and that error is at most the error of either end of the bracket.
\<close>

definition dens_ok :: "sb_state \<Rightarrow> bool" where
  "dens_ok s \<longleftrightarrow> 1 \<le> lo_d s \<and> 0 \<le> hi_d s \<and> 1 \<le> best_d s"

definition sb_inv :: "real \<Rightarrow> real \<Rightarrow> sb_state \<Rightarrow> bool" where
  "sb_inv x N s \<longleftrightarrow>
     1 \<le> lo_d s \<and> 0 \<le> hi_d s \<and> 1 \<le> best_d s \<and>
     hi_n s * lo_d s - lo_n s * hi_d s = 1 \<and>
     of_int (lo_n s) \<le> x * of_int (lo_d s) \<and>
     x * of_int (hi_d s) \<le> of_int (hi_n s) \<and>
     (best_d s = 1 \<or> of_int (best_d s) \<le> N) \<and>
     bestErr s = Fin \<bar>x - of_int (best_n s) / of_int (best_d s)\<bar> \<and>
     \<bar>x - of_int (best_n s) / of_int (best_d s)\<bar> \<le> x - of_int (lo_n s) / of_int (lo_d s) \<and>
     (0 < hi_d s \<longrightarrow>
        \<bar>x - of_int (best_n s) / of_int (best_d s)\<bar> \<le> of_int (hi_n s) / of_int (hi_d s) - x)"

section \<open>Arithmetic on finite numbers\<close>

lemmas jsnum_ops = plus_jsnum_def minus_jsnum_def uminus_jsnum_def times_jsnum_def
  divide_jsnum_def less_jsnum_def less_eq_jsnum_def eps14_def

lemma Fin_plus [simp]: "Fin a + Fin b = Fin (a + b)" by (simp add: plus_jsnum_def)
lemma Fin_minus [simp]: "Fin a - Fin b = Fin (a - b)" by (simp add: minus_jsnum_def)
lemma Fin_uminus [simp]: "- Fin a = Fin (- a)" by (simp add: uminus_jsnum_def)
lemma Fin_times [simp]: "Fin a * Fin b = Fin (a * b)" by (simp add: times_jsnum_def)
lemma Fin_divide [simp]: "Fin a / Fin b = (if b = 0 then jinf_signed True a else Fin (a / b))" by (simp add: divide_jsnum_def)
lemma Fin_less [simp]: "Fin a < Fin b \<longleftrightarrow> a < b" by (simp add: less_jsnum_def)
lemma Fin_le [simp]: "Fin a \<le> Fin b \<longleftrightarrow> a \<le> b" by (simp add: less_eq_jsnum_def)
lemma Math_sqrt_Fin [simp]: "0 \<le> a \<Longrightarrow> Math_sqrt (Fin a) = Fin (sqrt a)" by simp

section \<open>The oscillator on finite configurations\<close>

text \<open>
  With positive masses no division of \<open>_compute\<close> meets a zero divisor and no square root a
  negative argument, so every derived field is the real number that the formula names.
\<close>

lemma compute_uncoupled:
  assumes "0 < ma" "0 < mb" "\<bar>kb\<bar> < 1 / 10 ^ 14"
  shows "compute (fin_params ma mb ka kb kc xa xb va vb) =
    \<lparr> m1 = Fin ma, m2 = Fin mb, k1 = Fin ka, k2 = Fin kb, k3 = Fin kc,
       x10 = Fin xa, x20 = Fin xb, v10 = Fin va, v20 = Fin vb,
       omega1 = Fin (sqrt (max 0 (ka / ma))), omega2 = Fin (sqrt (max 0 (kc / mb))),
       r1 = Fin 0, r2 = Fin 0, A1 = Fin xa, A2 = Fin 0,
       B1 = Fin (if 1 / 10 ^ 14 < sqrt (max 0 (ka / ma)) then va / sqrt (max 0 (ka / ma)) else 0),
       B2 = Fin 0,
       coeffs1 = \<lparr> cw1 = Fin xa,
          sw1 = Fin (if 1 / 10 ^ 14 < sqrt (max 0 (ka / ma)) then va / sqrt (max 0 (ka / ma)) else 0),
          cw2 = Fin 0, sw2 = Fin 0 \<rparr>,
       coeffs2 = \<lparr> cw1 = Fin 0, sw1 = Fin 0, cw2 = Fin xb,
          sw2 = Fin (if 1 / 10 ^ 14 < sqrt (max 0 (kc / mb)) then vb / sqrt (max 0 (kc / mb)) else 0) \<rparr> \<rparr>"
proof -
  have nz: "ma \<noteq> 0" "mb \<noteq> 0" using assms by auto
  show ?thesis
    unfolding compute_def fin_params_def Let_def eps14_def
    using assms nz by (auto simp add: if_distrib[of Fin] cong: if_cong)
qed


lemma compute_coupled:
  fixes ma mb ka kb kc xa xb va vb :: real
  assumes m: "0 < ma" "0 < mb" and k: "\<not> \<bar>kb\<bar> < 1 / 10 ^ 14"
  assumes a_def: "a = (ka + kb) / ma" and b_def: "b = (kb + kc) / mb"
      and c2_def: "c2 = kb * kb / (ma * mb)"
      and D_def: "D = sqrt ((a - b) * (a - b) + 4 * c2)"
      and l1_def: "l1 = (a + b - D) / 2" and l2_def: "l2 = (a + b + D) / 2"
      and w1_def: "w1 = sqrt (max 0 l1)" and w2_def: "w2 = sqrt (max 0 l2)"
      and ra_def: "ra = (ka + kb - l1 * ma) / kb" and rb_def: "rb = (ka + kb - l2 * ma) / kb"
      and dn_def: "dn = ra - rb"
      and Aa_def: "Aa = (if \<bar>dn\<bar> < 1 / 10 ^ 14 then xa else (xb - rb * xa) / dn)"
      and Ab_def: "Ab = (if \<bar>dn\<bar> < 1 / 10 ^ 14 then 0 else xa - Aa)"
      and dg_def: "dg = (\<bar>dn\<bar> < 1 / 10 ^ 14 \<or> \<bar>w1\<bar> < 1 / 10 ^ 14)"
      and Ba_def: "Ba = (if dg then (if 1 / 10 ^ 14 < w1 then va / w1 else 0)
                  else (vb - rb * va) / (w1 * dn))"
      and Bb_def: "Bb = (if dg then 0 else if 1 / 10 ^ 14 < w2 then (va - w1 * Ba) / w2 else 0)"
  shows "compute (fin_params ma mb ka kb kc xa xb va vb) =
    \<lparr> m1 = Fin ma, m2 = Fin mb, k1 = Fin ka, k2 = Fin kb, k3 = Fin kc,
       x10 = Fin xa, x20 = Fin xb, v10 = Fin va, v20 = Fin vb,
       omega1 = Fin w1, omega2 = Fin w2, r1 = Fin ra, r2 = Fin rb,
       A1 = Fin Aa, A2 = Fin Ab, B1 = Fin Ba, B2 = Fin Bb,
       coeffs1 = \<lparr> cw1 = Fin Aa, sw1 = Fin Ba, cw2 = Fin Ab, sw2 = Fin Bb \<rparr>,
       coeffs2 = \<lparr> cw1 = Fin (ra * Aa), sw1 = Fin (ra * Ba),
                   cw2 = Fin (rb * Ab), sw2 = Fin (rb * Bb) \<rparr> \<rparr>"
proof -
  have nz: "ma \<noteq> 0" "mb \<noteq> 0" "kb \<noteq> 0" "ma * mb \<noteq> 0" using m k by auto
  have c2: "0 \<le> c2" unfolding c2_def using m by simp
  have rad: "0 \<le> (a - b) * (a - b) + 4 * c2" using c2 by simp
  have e1: "(Fin ka + Fin kb) / Fin ma = Fin a" by (simp add: a_def nz)
  have e2: "(Fin kb + Fin kc) / Fin mb = Fin b" by (simp add: b_def nz)
  have e3: "(Fin kb * Fin kb) / (Fin ma * Fin mb) = Fin c2" using nz by (simp add: c2_def)
  have e4: "Math_sqrt ((Fin a - Fin b) * (Fin a - Fin b) + Fin 4 * Fin c2) = Fin D"
    using rad by (simp add: D_def)
  have e5: "((Fin a + Fin b) - Fin D) / Fin 2 = Fin l1" "((Fin a + Fin b) + Fin D) / Fin 2 = Fin l2"
    by (simp_all add: l1_def l2_def)
  have e6: "Math_sqrt (Math_max (Fin 0) (Fin l1)) = Fin w1" "Math_sqrt (Math_max (Fin 0) (Fin l2)) = Fin w2"
    by (simp_all add: w1_def w2_def)
  have e7: "(Fin ka + Fin kb - Fin l1 * Fin ma) / Fin kb = Fin ra"
           "(Fin ka + Fin kb - Fin l2 * Fin ma) / Fin kb = Fin rb"
    using nz by (simp_all add: ra_def rb_def)
  have e8: "Fin ra - Fin rb = Fin dn" by (simp add: dn_def)
  have e9: "(if Math_abs (Fin dn) < eps14 then Fin xa else (Fin xb - Fin rb * Fin xa) / Fin dn) = Fin Aa"
    by (auto simp: Aa_def eps14_def)
  have e10: "(if Math_abs (Fin dn) < eps14 then Fin 0 else Fin xa - Fin Aa) = Fin Ab"
    by (auto simp: Ab_def eps14_def)
  have e11: "(Math_abs (Fin dn) < eps14 \<or> Math_abs (Fin w1) < eps14) = dg"
    by (auto simp: dg_def eps14_def)
  have e12: "(if dg then (if eps14 < Fin w1 then Fin va / Fin w1 else Fin 0)
                   else (Fin vb - Fin rb * Fin va) / (Fin w1 * Fin dn)) = Fin Ba"
    by (auto simp: Ba_def dg_def eps14_def)
  have e13: "(if dg then Fin 0 else if eps14 < Fin w2 then (Fin va - Fin w1 * Fin Ba) / Fin w2 else Fin 0) = Fin Bb"
    by (auto simp: Bb_def eps14_def)
  have kk: "\<not> Math_abs (Fin kb) < eps14" using k by (simp add: eps14_def)
  show ?thesis
    unfolding compute_def fin_params_def Let_def
    apply (simp only: params.simps CoupledOscillator.simps e1 e2 e3 e4 e5 e6 e7 e8 e9 e10 e11 e12 e13 kk if_False)
    apply simp
    done
qed

lemma eom_modes:
  fixes ma mb ka kb kc :: real
  assumes r1: "kb * ra = ka + kb - (w1 * w1) * ma"
      and r2: "kb * rb = ka + kb - (w2 * w2) * ma"
  shows "ma * (- Aa * w1 * w1 * c1 - Ba * w1 * w1 * s1 + - Ab * w2 * w2 * c2 - Bb * w2 * w2 * s2)
       = - (ka + kb) * (Aa * c1 + Ba * s1 + Ab * c2 + Bb * s2)
         + kb * (ra * Aa * c1 + ra * Ba * s1 + rb * Ab * c2 + rb * Bb * s2)"
proof -
  have "kb * (ra * Aa * c1 + ra * Ba * s1 + rb * Ab * c2 + rb * Bb * s2)
      = (kb * ra) * (Aa * c1 + Ba * s1) + (kb * rb) * (Ab * c2 + Bb * s2)"
    by (simp add: algebra_simps)
  then show ?thesis unfolding r1 r2 by (simp add: algebra_simps)
qed

lemma eom_modes2:
  fixes ma mb ka kb kc :: real
  assumes r1: "mb * (w1 * w1) * ra = (kb + kc) * ra - kb"
      and r2: "mb * (w2 * w2) * rb = (kb + kc) * rb - kb"
  shows "mb * (- (ra * Aa) * w1 * w1 * c1 - (ra * Ba) * w1 * w1 * s1
               + - (rb * Ab) * w2 * w2 * c2 - (rb * Bb) * w2 * w2 * s2)
       = kb * (Aa * c1 + Ba * s1 + Ab * c2 + Bb * s2)
         - (kb + kc) * (ra * Aa * c1 + ra * Ba * s1 + rb * Ab * c2 + rb * Bb * s2)"
proof -
  have "mb * (- (ra * Aa) * w1 * w1 * c1 - (ra * Ba) * w1 * w1 * s1
               + - (rb * Ab) * w2 * w2 * c2 - (rb * Bb) * w2 * w2 * s2)
      = - (mb * (w1 * w1) * ra) * (Aa * c1 + Ba * s1) - (mb * (w2 * w2) * rb) * (Ab * c2 + Bb * s2)"
    by (simp add: algebra_simps)
  then show ?thesis unfolding r1 r2 by (simp add: algebra_simps)
qed

lemma eigen_char:
  fixes ma mb ka kb kc :: real
  assumes m: "0 < ma" "0 < mb" and k: "kb \<noteq> 0"
  defines "a \<equiv> (ka + kb) / ma" and "b \<equiv> (kb + kc) / mb" and "c2 \<equiv> kb * kb / (ma * mb)"
  defines "D \<equiv> sqrt ((a - b) * (a - b) + 4 * c2)"
  defines "l1 \<equiv> (a + b - D) / 2" and "l2 \<equiv> (a + b + D) / 2"
  shows "l1 < l2"
    and "(a - l1) * (b - l1) = c2" and "(a - l2) * (b - l2) = c2"
proof -
  have "0 < kb\<^sup>2" using k by simp
  then have "0 < kb * kb" by (simp add: power2_eq_square)
  then have c2: "0 < c2" unfolding c2_def using m by simp
  have rad: "0 < (a - b) * (a - b) + 4 * c2" using c2 by (simp add: add_nonneg_pos)
  have DD: "D * D = (a - b) * (a - b) + 4 * c2"
    unfolding D_def using rad by simp
  have Dpos: "0 < D" unfolding D_def using rad by (rule real_sqrt_gt_zero)
  show "l1 < l2" using Dpos by (simp add: l1_def l2_def)
  have "(a - l1) * (b - l1) = (D * D - (a - b) * (a - b)) / 4"
    by (simp add: l1_def field_simps)
  then show "(a - l1) * (b - l1) = c2" using DD by simp
  have "(a - l2) * (b - l2) = (D * D - (a - b) * (a - b)) / 4"
    by (simp add: l2_def field_simps)
  then show "(a - l2) * (b - l2) = c2" using DD by simp
qed

lemma eigen_nonneg:
  fixes ma mb ka kb kc :: real
  assumes m: "0 < ma" "0 < mb" and k: "0 \<le> ka" "0 \<le> kc" "0 < kb"
  defines "a \<equiv> (ka + kb) / ma" and "b \<equiv> (kb + kc) / mb" and "c2 \<equiv> kb * kb / (ma * mb)"
  defines "D \<equiv> sqrt ((a - b) * (a - b) + 4 * c2)"
  shows "0 \<le> (a + b - D) / 2" and "0 \<le> (a + b + D) / 2"
proof -
  have ab: "0 \<le> a" "0 \<le> b" unfolding a_def b_def using m k by simp_all
  have "0 \<le> c2" unfolding c2_def using m by simp
  then have "0 \<le> (a - b) * (a - b) + 4 * c2" by simp
  then have D0: "0 \<le> D" unfolding D_def by simp
  have "c2 \<le> a * b"
  proof -
    have "a * b = (ka + kb) * (kb + kc) / (ma * mb)" by (simp add: a_def b_def)
    moreover have "kb * kb \<le> (ka + kb) * (kb + kc)"
    proof -
      have "(ka + kb) * (kb + kc) = kb * kb + (ka * kb + ka * kc + kb * kc)"
        by (simp add: algebra_simps)
      moreover have "0 \<le> ka * kb + ka * kc + kb * kc" using k by simp
      ultimately show ?thesis by linarith
    qed
    ultimately show ?thesis unfolding c2_def using m
      by (simp add: divide_right_mono)
  qed
  then have "(a - b) * (a - b) + 4 * c2 \<le> (a + b)\<^sup>2"
    by (simp add: power2_eq_square algebra_simps)
  then have "D \<le> a + b" unfolding D_def using ab by (intro real_le_lsqrt) simp_all
  then show "0 \<le> (a + b - D) / 2" by simp
  show "0 \<le> (a + b + D) / 2" using D0 ab by simp
qed

lemmas Fin_eval = Fin_plus Fin_minus Fin_uminus Fin_times Math_cos.simps Math_sin.simps

lemma position_Fin:
  assumes "omega1 osc = Fin w1" "omega2 osc = Fin w2"
    and "(if mass = 1 then coeffs1 osc else coeffs2 osc)
           = \<lparr> cw1 = Fin c1, sw1 = Fin s1, cw2 = Fin c2, sw2 = Fin s2 \<rparr>"
  shows "position osc mass (Fin t)
    = Fin (c1 * cos (w1 * t) + s1 * sin (w1 * t) + c2 * cos (w2 * t) + s2 * sin (w2 * t))"
  unfolding position_def Let_def assms by (simp only: coeffs.simps Fin_eval)

lemma velocity_Fin:
  assumes "omega1 osc = Fin w1" "omega2 osc = Fin w2"
    and "(if mass = 1 then coeffs1 osc else coeffs2 osc)
           = \<lparr> cw1 = Fin c1, sw1 = Fin s1, cw2 = Fin c2, sw2 = Fin s2 \<rparr>"
  shows "velocity osc mass (Fin t)
    = Fin (- c1 * w1 * sin (w1 * t) + s1 * w1 * cos (w1 * t)
           + - c2 * w2 * sin (w2 * t) + s2 * w2 * cos (w2 * t))"
  unfolding velocity_def Let_def assms by (simp only: coeffs.simps Fin_eval)

lemma acceleration_Fin:
  assumes "omega1 osc = Fin w1" "omega2 osc = Fin w2"
    and "(if mass = 1 then coeffs1 osc else coeffs2 osc)
           = \<lparr> cw1 = Fin c1, sw1 = Fin s1, cw2 = Fin c2, sw2 = Fin s2 \<rparr>"
  shows "acceleration osc mass (Fin t)
    = Fin (- c1 * w1 * w1 * cos (w1 * t) - s1 * w1 * w1 * sin (w1 * t)
           + - c2 * w2 * w2 * cos (w2 * t) - s2 * w2 * w2 * sin (w2 * t))"
  unfolding acceleration_def Let_def assms by (simp only: coeffs.simps Fin_eval)

lemma eom_coupled:
  fixes ma mb ka kb kc xa xb va vb t :: real
  assumes m: "0 < ma" "0 < mb" and k: "0 \<le> ka" "0 \<le> kc" "1 / 10 ^ 14 \<le> kb"
  defines "osc \<equiv> compute (fin_params ma mb ka kb kc xa xb va vb)"
  shows "Fin ma * acceleration osc 1 (Fin t)
         = - (Fin ka + Fin kb) * position osc 1 (Fin t) + Fin kb * position osc 2 (Fin t)"
    (is ?E1)
  and "Fin mb * acceleration osc 2 (Fin t)
         = Fin kb * position osc 1 (Fin t) - (Fin kb + Fin kc) * position osc 2 (Fin t)"
    (is ?E2)
proof -
  define a where "a = (ka + kb) / ma"
  define b where "b = (kb + kc) / mb"
  define c2 where "c2 = kb * kb / (ma * mb)"
  define D where "D = sqrt ((a - b) * (a - b) + 4 * c2)"
  define l1 where "l1 = (a + b - D) / 2"
  define l2 where "l2 = (a + b + D) / 2"
  define w1 where "w1 = sqrt (max 0 l1)"
  define w2 where "w2 = sqrt (max 0 l2)"
  define ra where "ra = (ka + kb - l1 * ma) / kb"
  define rb where "rb = (ka + kb - l2 * ma) / kb"
  define dn where "dn = ra - rb"
  define Aa where "Aa = (if \<bar>dn\<bar> < 1 / 10 ^ 14 then xa else (xb - rb * xa) / dn)"
  define Ab where "Ab = (if \<bar>dn\<bar> < 1 / 10 ^ 14 then 0 else xa - Aa)"
  define dg where "dg = (\<bar>dn\<bar> < 1 / 10 ^ 14 \<or> \<bar>w1\<bar> < 1 / 10 ^ 14)"
  define Ba where "Ba = (if dg then (if 1 / 10 ^ 14 < w1 then va / w1 else 0)
                  else (vb - rb * va) / (w1 * dn))"
  define Bb where "Bb = (if dg then 0 else if 1 / 10 ^ 14 < w2 then (va - w1 * Ba) / w2 else 0)"
  have "(0::real) < 1 / 10 ^ 14" by simp
  then have kpos: "0 < kb" using k(3) by linarith
  have knz: "\<not> \<bar>kb\<bar> < 1 / 10 ^ 14" using k by linarith
  have osc: "osc = \<lparr> m1 = Fin ma, m2 = Fin mb, k1 = Fin ka, k2 = Fin kb, k3 = Fin kc,
       x10 = Fin xa, x20 = Fin xb, v10 = Fin va, v20 = Fin vb,
       omega1 = Fin w1, omega2 = Fin w2, r1 = Fin ra, r2 = Fin rb,
       A1 = Fin Aa, A2 = Fin Ab, B1 = Fin Ba, B2 = Fin Bb,
       coeffs1 = \<lparr> cw1 = Fin Aa, sw1 = Fin Ba, cw2 = Fin Ab, sw2 = Fin Bb \<rparr>,
       coeffs2 = \<lparr> cw1 = Fin (ra * Aa), sw1 = Fin (ra * Ba),
                   cw2 = Fin (rb * Ab), sw2 = Fin (rb * Bb) \<rparr> \<rparr>"
    unfolding osc_def
    by (rule compute_coupled[OF m knz a_def b_def c2_def D_def l1_def l2_def w1_def w2_def
      ra_def rb_def dn_def Aa_def Ab_def dg_def Ba_def Bb_def])
  have kb0: "kb \<noteq> 0" using kpos by simp
  note ef = eigen_char[OF m kb0, of ka kc, folded a_def b_def c2_def, folded D_def, folded l1_def l2_def]
  note en = eigen_nonneg[OF m k(1,2) kpos, folded a_def b_def c2_def, folded D_def, folded l1_def l2_def]
  have w1sq: "w1 * w1 = l1" using en(1) by (simp add: w1_def)
  have w2sq: "w2 * w2 = l2" using en(2) by (simp add: w2_def)
  have kra: "kb * ra = ka + kb - (w1 * w1) * ma" using kpos by (simp add: ra_def w1sq)
  have krb: "kb * rb = ka + kb - (w2 * w2) * ma" using kpos by (simp add: rb_def w2sq)
  have ch: "(ka + kb - l * ma) * (kb + kc - mb * l) = kb * kb" if "(a - l) * (b - l) = c2" for l
  proof -
    have "(ka + kb - l * ma) * (kb + kc - mb * l) = (ma * mb) * ((a - l) * (b - l))"
      using m by (simp add: a_def b_def field_simps)
    also have "\<dots> = kb * kb" using m by (simp add: that c2_def)
    finally show ?thesis .
  qed
  have mra: "mb * (w1 * w1) * ra = (kb + kc) * ra - kb"
  proof -
    have "ra * (kb + kc - mb * l1) = kb"
      using ch[OF ef(2)] kpos by (simp add: ra_def field_simps)
    then show ?thesis by (simp add: w1sq algebra_simps)
  qed
  have mrb: "mb * (w2 * w2) * rb = (kb + kc) * rb - kb"
  proof -
    have "rb * (kb + kc - mb * l2) = kb"
      using ch[OF ef(3)] kpos by (simp add: rb_def field_simps)
    then show ?thesis by (simp add: w2sq algebra_simps)
  qed
  have p1: "position osc 1 (Fin t) = Fin (Aa * cos (w1 * t) + Ba * sin (w1 * t)
              + Ab * cos (w2 * t) + Bb * sin (w2 * t))"
    by (rule position_Fin) (simp_all add: osc)
  have p2: "position osc 2 (Fin t) = Fin (ra * Aa * cos (w1 * t) + ra * Ba * sin (w1 * t)
              + rb * Ab * cos (w2 * t) + rb * Bb * sin (w2 * t))"
    by (rule position_Fin) (simp_all add: osc)
  have a1: "acceleration osc 1 (Fin t) = Fin (- Aa * w1 * w1 * cos (w1 * t) - Ba * w1 * w1 * sin (w1 * t)
           + - Ab * w2 * w2 * cos (w2 * t) - Bb * w2 * w2 * sin (w2 * t))"
    by (rule acceleration_Fin) (simp_all add: osc)
  have a2: "acceleration osc 2 (Fin t) = Fin (- (ra * Aa) * w1 * w1 * cos (w1 * t) - (ra * Ba) * w1 * w1 * sin (w1 * t)
           + - (rb * Ab) * w2 * w2 * cos (w2 * t) - (rb * Bb) * w2 * w2 * sin (w2 * t))"
    by (rule acceleration_Fin) (simp_all add: osc)
  show ?E1
    unfolding p1 p2 a1
    apply (simp only: Fin_eval jsnum.inject)
    apply (rule eom_modes[OF kra krb])
    done
  show ?E2
    unfolding p1 p2 a2
    apply (simp only: Fin_eval jsnum.inject)
    apply (rule eom_modes2[OF mra mrb])
    done
qed

lemma eom_uncoupled:
  fixes ma mb ka kb kc xa xb va vb t :: real
  assumes m: "0 < ma" "0 < mb" and k: "0 \<le> ka" "0 \<le> kc" "\<bar>kb\<bar> < 1 / 10 ^ 14"
  defines "osc \<equiv> compute (fin_params ma mb ka kb kc xa xb va vb)"
  shows "Fin ma * acceleration osc 1 (Fin t) = - Fin ka * position osc 1 (Fin t)"
    and "Fin mb * acceleration osc 2 (Fin t) = - Fin kc * position osc 2 (Fin t)"
proof -
  define w1 where "w1 = sqrt (max 0 (ka / ma))"
  define w2 where "w2 = sqrt (max 0 (kc / mb))"
  define Ba where "Ba = (if 1 / 10 ^ 14 < w1 then va / w1 else 0)"
  define Bb where "Bb = (if 1 / 10 ^ 14 < w2 then vb / w2 else 0)"
  note osc = compute_uncoupled[OF m k(3), of ka kc xa xb va vb, folded w1_def w2_def,
      folded Ba_def Bb_def, folded osc_def]
  have w1sq: "ma * (w1 * w1) = ka" using m k by (simp add: w1_def)
  have w2sq: "mb * (w2 * w2) = kc" using m k by (simp add: w2_def)
  have p1: "position osc 1 (Fin t) = Fin (xa * cos (w1 * t) + Ba * sin (w1 * t)
              + 0 * cos (w2 * t) + 0 * sin (w2 * t))"
    by (rule position_Fin) (simp_all add: osc)
  have p2: "position osc 2 (Fin t) = Fin (0 * cos (w1 * t) + 0 * sin (w1 * t)
              + xb * cos (w2 * t) + Bb * sin (w2 * t))"
    by (rule position_Fin) (simp_all add: osc)
  have a1: "acceleration osc 1 (Fin t) = Fin (- xa * w1 * w1 * cos (w1 * t) - Ba * w1 * w1 * sin (w1 * t)
           + - 0 * w2 * w2 * cos (w2 * t) - 0 * w2 * w2 * sin (w2 * t))"
    by (rule acceleration_Fin) (simp_all add: osc)
  have a2: "acceleration osc 2 (Fin t) = Fin (- 0 * w1 * w1 * cos (w1 * t) - 0 * w1 * w1 * sin (w1 * t)
           + - xb * w2 * w2 * cos (w2 * t) - Bb * w2 * w2 * sin (w2 * t))"
    by (rule acceleration_Fin) (simp_all add: osc)
  have "ma * (- xa * w1 * w1 * cos (w1 * t) - Ba * w1 * w1 * sin (w1 * t))
      = - (ma * (w1 * w1)) * (xa * cos (w1 * t) + Ba * sin (w1 * t))"
    by (simp add: algebra_simps)
  then show "Fin ma * acceleration osc 1 (Fin t) = - Fin ka * position osc 1 (Fin t)"
    unfolding p1 a1 w1sq by simp
  have "mb * (- xb * w2 * w2 * cos (w2 * t) - Bb * w2 * w2 * sin (w2 * t))
      = - (mb * (w2 * w2)) * (xb * cos (w2 * t) + Bb * sin (w2 * t))"
    by (simp add: algebra_simps)
  then show "Fin mb * acceleration osc 2 (Fin t) = - Fin kc * position osc 2 (Fin t)"
    unfolding p2 a2 w2sq by simp
qed


lemma ic_uncoupled:
  fixes ma mb ka kb kc xa xb va vb :: real
  assumes m: "0 < ma" "0 < mb" and k: "\<bar>kb\<bar> < 1 / 10 ^ 14"
  defines "osc \<equiv> compute (fin_params ma mb ka kb kc xa xb va vb)"
  shows "position osc 1 (Fin 0) = Fin xa"
    and "position osc 2 (Fin 0) = Fin xb"
    and "velocity osc 1 (Fin 0) = (if eps14 < omega1 osc then Fin va else Fin 0)"
    and "velocity osc 2 (Fin 0) = (if eps14 < omega2 osc then Fin vb else Fin 0)"
proof -
  define w1 where "w1 = sqrt (max 0 (ka / ma))"
  define w2 where "w2 = sqrt (max 0 (kc / mb))"
  define Ba where "Ba = (if 1 / 10 ^ 14 < w1 then va / w1 else 0)"
  define Bb where "Bb = (if 1 / 10 ^ 14 < w2 then vb / w2 else 0)"
  note osc = compute_uncoupled[OF m k, of ka kc xa xb va vb, folded w1_def w2_def,
      folded Ba_def Bb_def, folded osc_def]
  have p1: "position osc 1 (Fin 0) = Fin (xa * cos (w1 * 0) + Ba * sin (w1 * 0)
              + 0 * cos (w2 * 0) + 0 * sin (w2 * 0))"
    by (rule position_Fin) (simp_all add: osc)
  have p2: "position osc 2 (Fin 0) = Fin (0 * cos (w1 * 0) + 0 * sin (w1 * 0)
              + xb * cos (w2 * 0) + Bb * sin (w2 * 0))"
    by (rule position_Fin) (simp_all add: osc)
  have v1: "velocity osc 1 (Fin 0) = Fin (- xa * w1 * sin (w1 * 0) + Ba * w1 * cos (w1 * 0)
           + - 0 * w2 * sin (w2 * 0) + 0 * w2 * cos (w2 * 0))"
    by (rule velocity_Fin) (simp_all add: osc)
  have v2: "velocity osc 2 (Fin 0) = Fin (- 0 * w1 * sin (w1 * 0) + 0 * w1 * cos (w1 * 0)
           + - xb * w2 * sin (w2 * 0) + Bb * w2 * cos (w2 * 0))"
    by (rule velocity_Fin) (simp_all add: osc)
  show "position osc 1 (Fin 0) = Fin xa" unfolding p1 by simp
  show "position osc 2 (Fin 0) = Fin xb" unfolding p2 by simp
  show "velocity osc 1 (Fin 0) = (if eps14 < omega1 osc then Fin va else Fin 0)"
    unfolding v1 by (auto simp: osc eps14_def Ba_def)
  show "velocity osc 2 (Fin 0) = (if eps14 < omega2 osc then Fin vb else Fin 0)"
    unfolding v2 by (auto simp: osc eps14_def Bb_def)
qed

lemma ic_coupled:
  fixes ma mb ka kb kc xa xb va vb :: real
  assumes m: "0 < ma" "0 < mb" and k: "\<not> \<bar>kb\<bar> < 1 / 10 ^ 14"
  defines "osc \<equiv> compute (fin_params ma mb ka kb kc xa xb va vb)"
  shows "position osc 1 (Fin 0) = Fin xa"
    and "\<not> Math_abs (r1 osc - r2 osc) < eps14 \<Longrightarrow> position osc 2 (Fin 0) = Fin xb"
    and "\<not> Math_abs (r1 osc - r2 osc) < eps14 \<Longrightarrow> \<not> Math_abs (omega1 osc) < eps14
           \<Longrightarrow> velocity osc 1 (Fin 0) = Fin va \<and> velocity osc 2 (Fin 0) = Fin vb"
proof -
  define a where "a = (ka + kb) / ma"
  define b where "b = (kb + kc) / mb"
  define c2 where "c2 = kb * kb / (ma * mb)"
  define D where "D = sqrt ((a - b) * (a - b) + 4 * c2)"
  define l1 where "l1 = (a + b - D) / 2"
  define l2 where "l2 = (a + b + D) / 2"
  define w1 where "w1 = sqrt (max 0 l1)"
  define w2 where "w2 = sqrt (max 0 l2)"
  define ra where "ra = (ka + kb - l1 * ma) / kb"
  define rb where "rb = (ka + kb - l2 * ma) / kb"
  define dn where "dn = ra - rb"
  define Aa where "Aa = (if \<bar>dn\<bar> < 1 / 10 ^ 14 then xa else (xb - rb * xa) / dn)"
  define Ab where "Ab = (if \<bar>dn\<bar> < 1 / 10 ^ 14 then 0 else xa - Aa)"
  define dg where "dg = (\<bar>dn\<bar> < 1 / 10 ^ 14 \<or> \<bar>w1\<bar> < 1 / 10 ^ 14)"
  define Ba where "Ba = (if dg then (if 1 / 10 ^ 14 < w1 then va / w1 else 0)
                  else (vb - rb * va) / (w1 * dn))"
  define Bb where "Bb = (if dg then 0 else if 1 / 10 ^ 14 < w2 then (va - w1 * Ba) / w2 else 0)"
  have osc: "osc = \<lparr> m1 = Fin ma, m2 = Fin mb, k1 = Fin ka, k2 = Fin kb, k3 = Fin kc,
       x10 = Fin xa, x20 = Fin xb, v10 = Fin va, v20 = Fin vb,
       omega1 = Fin w1, omega2 = Fin w2, r1 = Fin ra, r2 = Fin rb,
       A1 = Fin Aa, A2 = Fin Ab, B1 = Fin Ba, B2 = Fin Bb,
       coeffs1 = \<lparr> cw1 = Fin Aa, sw1 = Fin Ba, cw2 = Fin Ab, sw2 = Fin Bb \<rparr>,
       coeffs2 = \<lparr> cw1 = Fin (ra * Aa), sw1 = Fin (ra * Ba),
                   cw2 = Fin (rb * Ab), sw2 = Fin (rb * Bb) \<rparr> \<rparr>"
    unfolding osc_def
    by (rule compute_coupled[OF m k a_def b_def c2_def D_def l1_def l2_def w1_def w2_def
      ra_def rb_def dn_def Aa_def Ab_def dg_def Ba_def Bb_def])
  have kb0: "kb \<noteq> 0" using k by auto
  note ef = eigen_char[OF m kb0, of ka kc, folded a_def b_def c2_def, folded D_def, folded l1_def l2_def]
  have p1: "position osc 1 (Fin 0) = Fin (Aa * cos (w1 * 0) + Ba * sin (w1 * 0)
              + Ab * cos (w2 * 0) + Bb * sin (w2 * 0))"
    by (rule position_Fin) (simp_all add: osc)
  have p2: "position osc 2 (Fin 0) = Fin (ra * Aa * cos (w1 * 0) + ra * Ba * sin (w1 * 0)
              + rb * Ab * cos (w2 * 0) + rb * Bb * sin (w2 * 0))"
    by (rule position_Fin) (simp_all add: osc)
  have v1: "velocity osc 1 (Fin 0) = Fin (- Aa * w1 * sin (w1 * 0) + Ba * w1 * cos (w1 * 0)
           + - Ab * w2 * sin (w2 * 0) + Bb * w2 * cos (w2 * 0))"
    by (rule velocity_Fin) (simp_all add: osc)
  have v2: "velocity osc 2 (Fin 0) = Fin (- (ra * Aa) * w1 * sin (w1 * 0) + (ra * Ba) * w1 * cos (w1 * 0)
           + - (rb * Ab) * w2 * sin (w2 * 0) + (rb * Bb) * w2 * cos (w2 * 0))"
    by (rule velocity_Fin) (simp_all add: osc)
  show "position osc 1 (Fin 0) = Fin xa" unfolding p1 by (simp add: Ab_def Aa_def)
  {
    assume "\<not> Math_abs (r1 osc - r2 osc) < eps14"
    then have nd: "\<not> \<bar>dn\<bar> < 1 / 10 ^ 14" by (simp add: osc eps14_def dn_def)
    then have dn0: "dn \<noteq> 0" by auto
    have A: "Aa = (xb - rb * xa) / dn" "Ab = xa - Aa" using nd by (simp_all add: Aa_def Ab_def)
    have "ra * Aa + rb * Ab = dn * Aa + rb * xa" by (simp add: A(2) dn_def algebra_simps)
    also have "\<dots> = xb" using dn0 by (simp add: A(1))
    finally show "position osc 2 (Fin 0) = Fin xb" unfolding p2 by simp
    assume "\<not> Math_abs (omega1 osc) < eps14"
    moreover have "0 \<le> w1" by (simp add: w1_def)
    ultimately have w1: "1 / 10 ^ 14 \<le> w1" by (simp add: osc eps14_def)
    then have w1pos: "0 < w1" by (simp add: field_simps)
    have ndg: "\<not> dg" using nd w1 w1pos by (simp add: dg_def)
    have "0 < max 0 l1" using w1pos by (simp add: w1_def)
    then have l1: "0 < l1" by (simp add: max_def split: if_splits)
    then have "max 0 l1 < max 0 l2" using ef(1) by simp
    then have "w1 < w2" unfolding w1_def w2_def by simp
    then have w2: "1 / 10 ^ 14 < w2" "w2 \<noteq> 0" using w1 w1pos by simp_all
    have B: "Ba = (vb - rb * va) / (w1 * dn)" "Bb = (va - w1 * Ba) / w2"
      using ndg w2 by (simp_all add: Ba_def Bb_def)
    have e1: "Ba * w1 + Bb * w2 = va" using w2 by (simp add: B(2))
    have "ra * Ba * w1 + rb * Bb * w2 = dn * (Ba * w1) + rb * (Ba * w1 + Bb * w2)"
      by (simp add: dn_def algebra_simps)
    also have "\<dots> = dn * (Ba * w1) + rb * va" by (simp only: e1)
    also have "dn * (Ba * w1) = vb - rb * va" using dn0 w1pos by (simp add: B(1))
    finally have e2: "ra * Ba * w1 + rb * Bb * w2 = vb" by simp
    show "velocity osc 1 (Fin 0) = Fin va \<and> velocity osc 2 (Fin 0) = Fin vb"
      unfolding v1 v2 using e1 e2 by simp
  }
qed

lemma compute_finite:
  fixes ma mb ka kb kc xa xb va vb :: real
  assumes m: "0 < ma" "0 < mb"
  shows "finite_fields (compute (fin_params ma mb ka kb kc xa xb va vb))"
proof (cases "\<bar>kb\<bar> < 1 / 10 ^ 14")
  case True
  show ?thesis
    unfolding compute_uncoupled[OF m True]
    by (simp add: finite_fields_def finite_coeffs_def)
next
  case False
  show ?thesis
    unfolding compute_coupled[OF m False refl refl refl refl refl refl refl refl refl refl refl
        refl refl refl refl refl]
    by (simp add: finite_fields_def finite_coeffs_def)
qed

lemma is_finiteE:
  assumes "is_finite x"
  obtains r where "x = Fin r"
  using assms by (cases x) simp_all

lemma finite_coeffsE:
  assumes "finite_coeffs c"
  obtains c1 s1 c2 s2 where "c = \<lparr> cw1 = Fin c1, sw1 = Fin s1, cw2 = Fin c2, sw2 = Fin s2 \<rparr>"
proof -
  obtain p q r s where c: "c = \<lparr> cw1 = p, sw1 = q, cw2 = r, sw2 = s \<rparr>"
    by (cases c) simp
  from assms have "is_finite p" "is_finite q" "is_finite r" "is_finite s"
    by (simp_all add: finite_coeffs_def c)
  then show ?thesis using that c by (auto elim!: is_finiteE)
qed

lemma position_finite:
  assumes "finite_fields osc"
  shows "\<exists>P. position osc mass (Fin t) = Fin P"
proof -
  from assms have "is_finite (omega1 osc)" "is_finite (omega2 osc)"
    by (simp_all add: finite_fields_def)
  then obtain w1 w2 where w: "omega1 osc = Fin w1" "omega2 osc = Fin w2"
    by (auto elim!: is_finiteE)
  have "finite_coeffs (if mass = 1 then coeffs1 osc else coeffs2 osc)"
    using assms unfolding finite_fields_def by simp
  then obtain c1 s1 c2 s2 where
    c: "(if mass = 1 then coeffs1 osc else coeffs2 osc)
           = \<lparr> cw1 = Fin c1, sw1 = Fin s1, cw2 = Fin c2, sw2 = Fin s2 \<rparr>"
    by (rule finite_coeffsE)
  show ?thesis using position_Fin[OF w c] by blast
qed

section \<open>The claims on the oscillator\<close>







text \<open>
  Claim C4, amended.  The constructor never raises \<open>ConfigError\<close>, whatever its argument.
  For every configuration object it returns the oscillator that \<open>_compute\<close> fills in:
  construction succeeds for \<open>m1 > 0\<close> and \<open>m2 > 0\<close>, and it succeeds just the same for
  \<open>m1 \<le> 0\<close> or \<open>m2 \<le> 0\<close>, where a zero mass is divided by without any check.
\<close>

theorem construction_never_raises:
  "new_CoupledOscillator arg \<noteq> Inl ConfigError \<and>
   new_CoupledOscillator (Some p) = Inr (compute p)"
  by (simp add: new_CoupledOscillator_def split: option.split)

text \<open>
  Claim C4 as stated fails at \<open>m1 = 0\<close>: no \<open>ConfigError\<close> is raised, the division by
  zero is silent and the object holds \<open>NaN\<close> and \<open>Infinity\<close>.
\<close>

theorem zero_mass_counterexample:
  "new_CoupledOscillator (Some (fin_params 0 1 1 1 1 1 0 0 0)) =
     Inr \<lparr> m1 = Fin 0, m2 = Fin 1, k1 = Fin 1, k2 = Fin 1, k3 = Fin 1,
           x10 = Fin 1, x20 = Fin 0, v10 = Fin 0, v20 = Fin 0,
           omega1 = NaN, omega2 = PInf, r1 = NaN, r2 = NaN,
           A1 = NaN, A2 = NaN, B1 = NaN, B2 = NaN,
           coeffs1 = \<lparr> cw1 = NaN, sw1 = NaN, cw2 = NaN, sw2 = NaN \<rparr>,
           coeffs2 = \<lparr> cw1 = NaN, sw1 = NaN, cw2 = NaN, sw2 = NaN \<rparr> \<rparr>"
  by (simp add: new_CoupledOscillator_def compute_def fin_params_def Let_def jsnum_ops)




section \<open>The scan and the bisection of \<open>firstTimeTo\<close>\<close>

lemma bisect_range:
  fixes lo hi :: real
  assumes "lo \<le> hi"
  shows "\<exists>x. fst (bisect fn target tol i (Fin lo) (Fin hi) pf) = Fin x \<and> lo \<le> x \<and> x \<le> hi"
  using assms
proof (induction n \<equiv> "60 - i" arbitrary: i lo hi pf)
  case 0
  then have "\<not> i < 60" by simp
  then have "fst (bisect fn target tol i (Fin lo) (Fin hi) pf) = Fin ((lo + hi) / 2)"
    by (subst bisect.simps) simp
  moreover have "lo \<le> (lo + hi) / 2" "(lo + hi) / 2 \<le> hi" using "0.prems" by simp_all
  ultimately show ?case by blast
next
  case (Suc n)
  then have i: "i < 60" and n: "n = 60 - (i + 1)" by simp_all
  define mid where "mid = (lo + hi) / 2"
  have r: "lo \<le> mid" "mid \<le> hi" using Suc.prems by (simp_all add: mid_def)
  define mf where "mf = fn (Fin mid) - target"
  have unf: "bisect fn target tol i (Fin lo) (Fin hi) pf =
    (if Math_abs mf < tol then (Fin mid, i + 1)
     else if pf * mf \<le> Fin 0 then bisect fn target tol (i + 1) (Fin lo) (Fin mid) pf
     else bisect fn target tol (i + 1) (Fin mid) (Fin hi) mf)"
    using i by (subst bisect.simps) (simp add: Let_def mid_def mf_def)
  from Suc.hyps(1)[OF n r(1)] obtain x1 where
    x1: "fst (bisect fn target tol (i + 1) (Fin lo) (Fin mid) pf) = Fin x1" "lo \<le> x1" "x1 \<le> mid"
    by blast
  from Suc.hyps(1)[OF n r(2)] obtain x2 where
    x2: "fst (bisect fn target tol (i + 1) (Fin mid) (Fin hi) mf) = Fin x2" "mid \<le> x2" "x2 \<le> hi"
    by blast
  show ?case
  proof (cases "Math_abs mf < tol")
    case True
    then show ?thesis unfolding unf using r by simp
  next
    case False
    show ?thesis
    proof (cases "pf * mf \<le> Fin 0")
      case True
      then show ?thesis unfolding unf using False x1 r by (intro exI[of _ x1]) simp
    next
      case nsc: False
      then show ?thesis unfolding unf using False x2 r by (intro exI[of _ x2]) simp
    qed
  qed
qed

lemma bisect_count: "i \<le> 60 \<Longrightarrow> snd (bisect fn target tol i lo hi pf) \<le> 60"
proof (induction n \<equiv> "60 - i" arbitrary: i lo hi pf)
  case 0
  then have "\<not> i < 60" by simp
  then show ?case using "0.prems" by (subst bisect.simps) simp
next
  case (Suc n)
  then have i: "i < 60" and n: "n = 60 - (i + 1)" and i1: "i + 1 \<le> 60" by simp_all
  show ?case
    using i Suc.hyps(1)[OF n i1]
    by (subst bisect.simps) (simp add: Let_def)
qed

lemma scan_unfold:
  "scan fn target (Fin b) (Fin d) tol (Fin (a + real (Suc k) * d))
        (sample a b d k) (residual fn target (sample a b d k)) =
    (if sampled a b d (Suc k) then
       if hit fn target tol a b d (Suc k) then Some (Some (sample a b d (Suc k)))
       else if sign_change fn target a b d k then
         Some (Some (fst (bisect fn target tol 0 (sample a b d k) (sample a b d (Suc k))
                            (residual fn target (sample a b d k)))))
       else if b \<le> a + real (Suc k) * d then Some None
       else scan fn target (Fin b) (Fin d) tol (Fin (a + real (Suc (Suc k)) * d))
              (sample a b d (Suc k)) (residual fn target (sample a b d (Suc k)))
     else Some None)"
proof -
  have e: "a + (1 + real k) * d + d = a + (2 + real k) * d" by (simp add: algebra_simps)
  show ?thesis
    by (subst scan.simps)
       (simp add: Let_def sampled_def hit_def sign_change_def residual_def sample_def e)
qed

lemma grid_mono:
  fixes a d :: real
  assumes "0 < d" "j \<le> k"
  shows "a + real j * d \<le> a + real k * d"
  using assms by (simp add: mult_right_mono)

lemma scan_spec:
  fixes a b d :: real
  assumes d: "0 < d" and prev: "\<forall>j\<le>k. \<not> hit fn target tol a b d j"
  shows "\<exists>r. scan fn target (Fin b) (Fin d) tol (Fin (a + real (Suc k) * d))
               (sample a b d k) (residual fn target (sample a b d k)) = Some r \<and>
             (r = None \<longleftrightarrow>
                (\<forall>j>k. sampled a b d j \<longrightarrow> \<not> hit fn target tol a b d j) \<and>
                (\<forall>j\<ge>k. sampled a b d (Suc j) \<longrightarrow> \<not> sign_change fn target a b d j)) \<and>
             (\<forall>t. r = Some t \<longrightarrow>
                (\<exists>x. t = Fin x \<and> min (a + real k * d) b \<le> x \<and> x \<le> b \<and>
                     (\<forall>j. hit fn target tol a b d j \<longrightarrow> x \<le> min (a + real j * d) b)))"
  using prev
proof (induction k rule: measure_induct_rule[where f = "\<lambda>k. nat \<lceil>(b - (a + real (Suc k) * d)) / d\<rceil>"])
  case (less k)
  let ?S = "\<lambda>j. sampled a b d j"
  let ?H = "\<lambda>j. hit fn target tol a b d j"
  let ?C = "\<lambda>j. sign_change fn target a b d j"
  note unf = scan_unfold[of fn target b d tol a k]
  have nohit: "k < j" if "?H j" for j using less.prems that by (meson not_le)
  have later: "min (a + real (Suc k) * d) b \<le> min (a + real j * d) b" if "?H j" for j
  proof -
    have "Suc k \<le> j" using nohit[OF that] by simp
    from grid_mono[OF d this, of a] show ?thesis by (simp add: min_le_iff_disj)
  qed
  have step: "min (a + real k * d) b \<le> min (a + real (Suc k) * d) b"
    using grid_mono[OF d, of k "Suc k" a] by (simp add: min_le_iff_disj)
  show ?case
  proof (cases "?S (Suc k)")
    case False
    have "\<not> ?S j" if "k < j" for j
    proof -
      have "Suc k \<le> j" using that by simp
      from grid_mono[OF d this, of a] False show ?thesis by (simp add: sampled_def)
    qed
    then have "(\<forall>j>k. ?S j \<longrightarrow> \<not> ?H j) \<and> (\<forall>j\<ge>k. ?S (Suc j) \<longrightarrow> \<not> ?C j)"
      by (simp add: less_Suc_eq_le)
    moreover have "scan fn target (Fin b) (Fin d) tol (Fin (a + real (Suc k) * d))
               (sample a b d k) (residual fn target (sample a b d k)) = Some None"
      unfolding unf using False by simp
    ultimately show ?thesis by simp
  next
    case True
    note S = this
    show ?thesis
    proof (cases "?H (Suc k)")
      case True
      have "\<not> (\<forall>j>k. ?S j \<longrightarrow> \<not> ?H j)" using S True by blast
      moreover have "\<forall>j. ?H j \<longrightarrow> min (a + real (Suc k) * d) b \<le> min (a + real j * d) b"
        using later by blast
      moreover have "scan fn target (Fin b) (Fin d) tol (Fin (a + real (Suc k) * d))
               (sample a b d k) (residual fn target (sample a b d k))
                 = Some (Some (Fin (min (a + real (Suc k) * d) b)))"
        unfolding unf using S True by (simp add: sample_def)
      ultimately show ?thesis using step by simp
    next
      case False
      note H = this
      show ?thesis
      proof (cases "?C k")
        case True
        have "min (a + real k * d) b \<le> min (a + real (Suc k) * d) b" by (rule step)
        from bisect_range[OF this, of fn target tol 0 "residual fn target (sample a b d k)"]
        obtain x where x: "fst (bisect fn target tol 0 (sample a b d k) (sample a b d (Suc k))
                            (residual fn target (sample a b d k))) = Fin x"
          "min (a + real k * d) b \<le> x" "x \<le> min (a + real (Suc k) * d) b"
          unfolding sample_def by blast
        have "\<not> (\<forall>j\<ge>k. ?S (Suc j) \<longrightarrow> \<not> ?C j)" using S True by blast
        moreover have "\<forall>j. ?H j \<longrightarrow> x \<le> min (a + real j * d) b"
          using later x(3) by (meson order_trans)
        moreover have "x \<le> b" using x(3) by simp
        moreover have "scan fn target (Fin b) (Fin d) tol (Fin (a + real (Suc k) * d))
               (sample a b d k) (residual fn target (sample a b d k)) = Some (Some (Fin x))"
          unfolding unf using S H True x(1) by simp
        ultimately show ?thesis using x(2) by simp
      next
        case False
        note C = this
        show ?thesis
        proof (cases "b \<le> a + real (Suc k) * d")
          case True
          have "\<not> ?S j" if "Suc k < j" for j
          proof -
            have "Suc (Suc k) \<le> j" using that by simp
            from grid_mono[OF d this, of a] have "a + real (Suc k) * d + d \<le> a + real j * d"
              by (simp add: algebra_simps)
            then show ?thesis using True d by (simp add: sampled_def)
          qed
          then have "(\<forall>j>k. ?S j \<longrightarrow> \<not> ?H j) \<and> (\<forall>j\<ge>k. ?S (Suc j) \<longrightarrow> \<not> ?C j)"
            using H C by (metis Suc_lessI le_neq_implies_less less_Suc_eq_le not_less_eq)
          moreover have "scan fn target (Fin b) (Fin d) tol (Fin (a + real (Suc k) * d))
               (sample a b d k) (residual fn target (sample a b d k)) = Some None"
            unfolding unf using S H C True by simp
          ultimately show ?thesis by simp
        next
          case False
          have m: "nat \<lceil>(b - (a + real (Suc (Suc k)) * d)) / d\<rceil>
                    < nat \<lceil>(b - (a + real (Suc k) * d)) / d\<rceil>"
          proof -
            have "(b - (a + real (Suc (Suc k)) * d)) / d = (b - (a + real (Suc k) * d)) / d - 1"
              using d by (simp add: field_simps)
            moreover have "0 < (b - (a + real (Suc k) * d)) / d" using False d by simp
            ultimately show ?thesis by (simp add: ceiling_diff_one)
          qed
          have p: "\<forall>j\<le>Suc k. \<not> ?H j" using less.prems H by (simp add: le_Suc_eq)
          from less.IH[OF m p] obtain r where
            r: "scan fn target (Fin b) (Fin d) tol (Fin (a + real (Suc (Suc k)) * d))
                  (sample a b d (Suc k)) (residual fn target (sample a b d (Suc k))) = Some r"
               "r = None \<longleftrightarrow>
                  (\<forall>j>Suc k. ?S j \<longrightarrow> \<not> ?H j) \<and> (\<forall>j\<ge>Suc k. ?S (Suc j) \<longrightarrow> \<not> ?C j)"
               "\<forall>t. r = Some t \<longrightarrow>
                  (\<exists>x. t = Fin x \<and> min (a + real (Suc k) * d) b \<le> x \<and> x \<le> b \<and>
                     (\<forall>j. ?H j \<longrightarrow> x \<le> min (a + real j * d) b))"
            by blast
          have e1: "(\<forall>j>k. ?S j \<longrightarrow> \<not> ?H j) \<longleftrightarrow> (\<forall>j>Suc k. ?S j \<longrightarrow> \<not> ?H j)"
            using H by (metis Suc_lessI Suc_lessD)
          have e2: "(\<forall>j\<ge>k. ?S (Suc j) \<longrightarrow> \<not> ?C j) \<longleftrightarrow> (\<forall>j\<ge>Suc k. ?S (Suc j) \<longrightarrow> \<not> ?C j)"
            using C by (metis Suc_leD le_antisym not_less_eq_eq)
          have e3: "\<forall>t. r = Some t \<longrightarrow>
                  (\<exists>x. t = Fin x \<and> min (a + real k * d) b \<le> x \<and> x \<le> b \<and>
                     (\<forall>j. ?H j \<longrightarrow> x \<le> min (a + real j * d) b))"
          proof (intro allI impI)
            fix t assume "r = Some t"
            with r(3) obtain x where x: "t = Fin x" "min (a + real (Suc k) * d) b \<le> x" "x \<le> b"
              "\<forall>j. ?H j \<longrightarrow> x \<le> min (a + real j * d) b" by blast
            from step x(2) have "min (a + real k * d) b \<le> x" by (rule order_trans)
            with x(1,3,4) show "\<exists>x. t = Fin x \<and> min (a + real k * d) b \<le> x \<and> x \<le> b \<and>
                     (\<forall>j. ?H j \<longrightarrow> x \<le> min (a + real j * d) b)" by blast
          qed
          have "scan fn target (Fin b) (Fin d) tol (Fin (a + real (Suc k) * d))
               (sample a b d k) (residual fn target (sample a b d k)) = Some r"
            unfolding unf using S H C False r(1) by simp
          then show ?thesis using r(2) e1 e2 e3 by blast
        qed
      qed
    qed
  qed
qed

lemma scan_diverges:
  assumes "\<not> Math_abs pf < tol" "\<not> pf * pf < Fin 0" "fn (Fin 0) - target = pf"
  shows "scan fn target (Fin 1) (Fin 0) tol (Fin 0) (Fin 0) pf = None"
proof (rule ccontr)
  assume "scan fn target (Fin 1) (Fin 0) tol (Fin 0) (Fin 0) pf \<noteq> None"
  then obtain y where y: "scan fn target (Fin 1) (Fin 0) tol (Fin 0) (Fin 0) pf = Some y"
    by auto
  define Inv where "Inv = (\<lambda>fn' target' tmax step tol' t prevT prevF.
     fn' = fn \<and> target' = target \<and> tmax = Fin 1 \<and> step = Fin 0 \<and> tol' = tol \<and>
     t = Fin 0 \<and> prevT = Fin 0 \<and> prevF = pf)"
  have "\<not> Inv fn target (Fin 1) (Fin 0) tol (Fin 0) (Fin 0) pf"
  proof (rule scan.raw_induct[where P = "\<lambda>fn' target' tmax step tol' t prevT prevF y.
            \<not> Inv fn' target' tmax step tol' t prevT prevF", OF _ y])
    fix scan' :: "(jsnum \<Rightarrow> jsnum) \<Rightarrow> jsnum \<Rightarrow> jsnum \<Rightarrow> jsnum \<Rightarrow> jsnum \<Rightarrow>
        jsnum \<Rightarrow> jsnum \<Rightarrow> jsnum \<Rightarrow> jsnum option option"
    fix fn' target' tmax step tol' t prevT prevF and y' :: "jsnum option"
    assume IH: "\<And>fn' target' tmax step tol' t prevT prevF y.
        scan' fn' target' tmax step tol' t prevT prevF = Some (y :: jsnum option) \<Longrightarrow>
        \<not> Inv fn' target' tmax step tol' t prevT prevF"
    assume eq: "(if t \<le> tmax + step * Fin (1 / 2)
      then let curT = Math_min t tmax; curF = fn' curT - target'
           in if Math_abs curF < tol' then Some (Some curT)
              else if prevF * curF < Fin 0
                   then Some (Some (fst (bisect fn' target' tol' 0 prevT curT prevF)))
                   else if tmax \<le> curT then Some None
                        else scan' fn' target' tmax step tol' (t + step) curT curF
      else Some None) = Some y'"
    show "\<not> Inv fn' target' tmax step tol' t prevT prevF"
    proof
      assume "Inv fn' target' tmax step tol' t prevT prevF"
      then have inv: "fn' = fn" "target' = target" "tmax = Fin 1" "step = Fin 0" "tol' = tol"
            "t = Fin 0" "prevT = Fin 0" "prevF = pf"
        by (simp_all add: Inv_def)
      from eq assms have "scan' fn target (Fin 1) (Fin 0) tol (Fin 0) (Fin 0) pf = Some y'"
        unfolding inv by (simp add: Let_def)
      from IH[OF this] show False by (simp add: Inv_def)
    qed
  qed
  then show False by (simp add: Inv_def)
qed

lemma sample_step:
  fixes a b d :: real
  assumes "0 < d"
  shows "min (a + real n * d) b \<le> min (a + real (Suc n) * d) b"
    and "min (a + real (Suc n) * d) b - min (a + real n * d) b \<le> d"
  using assms by (simp_all add: min_def algebra_simps)

lemma scan_found:
  fixes a b d :: real
  assumes d: "0 < d"
    and res: "scan fn target (Fin b) (Fin d) tol (Fin (a + real (Suc k) * d))
               (sample a b d k) (residual fn target (sample a b d k)) = Some (Some t)"
  shows "\<exists>n\<ge>k. sampled a b d (Suc n) \<and>
           (\<forall>j. k < j \<and> j \<le> n \<longrightarrow> \<not> hit fn target tol a b d j) \<and>
           (\<forall>j. k \<le> j \<and> j < n \<longrightarrow> \<not> sign_change fn target a b d j) \<and>
           (hit fn target tol a b d (Suc n) \<and> t = sample a b d (Suc n) \<or>
            \<not> hit fn target tol a b d (Suc n) \<and> sign_change fn target a b d n \<and>
            t = fst (bisect fn target tol 0 (sample a b d n) (sample a b d (Suc n))
                       (residual fn target (sample a b d n))))"
  using res
proof (induction k rule: measure_induct_rule[where f = "\<lambda>k. nat \<lceil>(b - (a + real (Suc k) * d)) / d\<rceil>"])
  case (less k)
  let ?S = "\<lambda>j. sampled a b d j"
  let ?H = "\<lambda>j. hit fn target tol a b d j"
  let ?C = "\<lambda>j. sign_change fn target a b d j"
  note unf = scan_unfold[of fn target b d tol a k]
  have S: "?S (Suc k)"
  proof (rule ccontr)
    assume "\<not> ?S (Suc k)"
    then show False using less.prems unfolding unf by simp
  qed
  show ?case
  proof (cases "?H (Suc k)")
    case True
    then have "t = sample a b d (Suc k)" using less.prems S unfolding unf by simp
    then show ?thesis using S True by (intro exI[of _ k]) auto
  next
    case H: False
    show ?thesis
    proof (cases "?C k")
      case True
      then have "t = fst (bisect fn target tol 0 (sample a b d k) (sample a b d (Suc k))
                       (residual fn target (sample a b d k)))"
        using less.prems S H unfolding unf by simp
      then show ?thesis using S H True by (intro exI[of _ k]) auto
    next
      case C: False
      have nb: "\<not> b \<le> a + real (Suc k) * d"
      proof
        assume "b \<le> a + real (Suc k) * d"
        then show False using less.prems S H C unfolding unf by simp
      qed
      have m: "nat \<lceil>(b - (a + real (Suc (Suc k)) * d)) / d\<rceil>
                < nat \<lceil>(b - (a + real (Suc k) * d)) / d\<rceil>"
      proof -
        have "(b - (a + real (Suc (Suc k)) * d)) / d = (b - (a + real (Suc k) * d)) / d - 1"
          using d by (simp add: field_simps)
        moreover have "0 < (b - (a + real (Suc k) * d)) / d" using nb d by simp
        ultimately show ?thesis by (simp add: ceiling_diff_one)
      qed
      have rec: "scan fn target (Fin b) (Fin d) tol (Fin (a + real (Suc (Suc k)) * d))
                  (sample a b d (Suc k)) (residual fn target (sample a b d (Suc k)))
                   = Some (Some t)"
        using less.prems S H C nb unfolding unf by simp
      from less.IH[OF m rec] obtain n where
        n: "Suc k \<le> n" "?S (Suc n)"
           "\<forall>j. Suc k < j \<and> j \<le> n \<longrightarrow> \<not> ?H j"
           "\<forall>j. Suc k \<le> j \<and> j < n \<longrightarrow> \<not> ?C j"
           "?H (Suc n) \<and> t = sample a b d (Suc n) \<or>
            \<not> ?H (Suc n) \<and> ?C n \<and>
            t = fst (bisect fn target tol 0 (sample a b d n) (sample a b d (Suc n))
                       (residual fn target (sample a b d n)))"
        by blast
      have h: "\<forall>j. k < j \<and> j \<le> n \<longrightarrow> \<not> ?H j"
      proof (intro allI impI)
        fix j assume j: "k < j \<and> j \<le> n"
        show "\<not> ?H j"
        proof (cases "j = Suc k")
          case True
          then show ?thesis using H by simp
        next
          case False
          then have "Suc k < j \<and> j \<le> n" using j by simp
          then show ?thesis using n(3) by blast
        qed
      qed
      have c: "\<forall>j. k \<le> j \<and> j < n \<longrightarrow> \<not> ?C j"
      proof (intro allI impI)
        fix j assume j: "k \<le> j \<and> j < n"
        show "\<not> ?C j"
        proof (cases "j = k")
          case True
          then show ?thesis using C by simp
        next
          case False
          then have "Suc k \<le> j \<and> j < n" using j by simp
          then show ?thesis using n(4) by blast
        qed
      qed
      have "k \<le> n" using n(1) by simp
      then show ?thesis using n(2,5) h c by blast
    qed
  qed
qed

lemma firstTimeTo_unfold:
  assumes "or_default (tMin options) (Fin 0) = Fin a"
      and "or_default (tMax options) (Fin 100) = Fin b"
      and "or_default (dt options) (Fin (1 / 100)) = Fin d"
  shows "firstTimeTo osc mass q target options =
    (if Math_abs (residual (quantity_fn osc mass q) target (Fin a))
          < or_default (tolerance options) (Fin (1 / 10 ^ 9))
     then Some (Some (Fin a))
     else scan (quantity_fn osc mass q) target (Fin b) (Fin d)
            (or_default (tolerance options) (Fin (1 / 10 ^ 9)))
            (Fin (a + d)) (Fin a) (residual (quantity_fn osc mass q) target (Fin a)))"
  by (simp add: firstTimeTo_def assms Let_def residual_def)

lemma firstTimeTo_range:
  fixes a b d :: real and osc :: CoupledOscillator and mass :: int and q :: string
    and target :: jsnum and options :: opts
  assumes tmin: "or_default (tMin options) (Fin 0) = Fin a"
      and tmax: "or_default (tMax options) (Fin 100) = Fin b"
      and step: "or_default (dt options) (Fin (1 / 100)) = Fin d"
      and d: "0 < d" and ab: "a \<le> b"
  defines "fn \<equiv> quantity_fn osc mass q"
  defines "tol \<equiv> or_default (tolerance options) (Fin (1 / 10 ^ 9))"
  shows "\<exists>r. firstTimeTo osc mass q target options = Some r \<and>
           (hit fn target tol a b d 0 \<longrightarrow> r = Some (Fin a)) \<and>
           (r = None \<longleftrightarrow>
              (\<forall>j. sampled a b d j \<longrightarrow> \<not> hit fn target tol a b d j) \<and>
              (\<forall>j. sampled a b d (Suc j) \<longrightarrow> \<not> sign_change fn target a b d j)) \<and>
           (\<forall>t. r = Some t \<longrightarrow>
              (\<exists>x. t = Fin x \<and> a \<le> x \<and> x \<le> b \<and>
                   (\<forall>j. hit fn target tol a b d j \<longrightarrow> x \<le> min (a + real j * d) b)))"
proof -
  have s0: "sample a b d 0 = Fin a" using ab by (simp add: sample_def)
  have S0: "sampled a b d 0" using ab d by (simp add: sampled_def)
  note unf = firstTimeTo_unfold[OF tmin tmax step, of osc mass q target, folded fn_def tol_def]
  show ?thesis
  proof (cases "hit fn target tol a b d 0")
    case True
    have res: "firstTimeTo osc mass q target options = Some (Some (Fin a))"
      unfolding unf using True by (simp add: hit_def s0)
    have lo: "\<forall>j. hit fn target tol a b d j \<longrightarrow> a \<le> min (a + real j * d) b"
      using ab d by simp
    have nn: "\<not> (\<forall>j. sampled a b d j \<longrightarrow> \<not> hit fn target tol a b d j)"
      using True S0 by blast
    show ?thesis
    proof (intro exI[of _ "Some (Fin a)"] conjI)
      show "firstTimeTo osc mass q target options = Some (Some (Fin a))" by (rule res)
      show "hit fn target tol a b d 0 \<longrightarrow> Some (Fin a) = Some (Fin a)" by simp
      show "(Some (Fin a) = None) =
              ((\<forall>j. sampled a b d j \<longrightarrow> \<not> hit fn target tol a b d j) \<and>
               (\<forall>j. sampled a b d (Suc j) \<longrightarrow> \<not> sign_change fn target a b d j))"
        using nn by simp
      show "\<forall>t. Some (Fin a) = Some t \<longrightarrow>
              (\<exists>x. t = Fin x \<and> a \<le> x \<and> x \<le> b \<and>
                   (\<forall>j. hit fn target tol a b d j \<longrightarrow> x \<le> min (a + real j * d) b))"
        using ab lo by simp
    qed
  next
    case False
    then have p: "\<forall>j\<le>0. \<not> hit fn target tol a b d j" by simp
    have "\<exists>r. scan fn target (Fin b) (Fin d) tol (Fin (a + real (Suc 0) * d))
               (sample a b d 0) (residual fn target (sample a b d 0)) = Some r \<and>
         (r = None \<longleftrightarrow>
                (\<forall>j>0. sampled a b d j \<longrightarrow> \<not> hit fn target tol a b d j) \<and>
                (\<forall>j\<ge>0. sampled a b d (Suc j) \<longrightarrow> \<not> sign_change fn target a b d j)) \<and>
         (\<forall>t. r = Some t \<longrightarrow>
                (\<exists>x. t = Fin x \<and> min (a + real 0 * d) b \<le> x \<and> x \<le> b \<and>
                     (\<forall>j. hit fn target tol a b d j \<longrightarrow> x \<le> min (a + real j * d) b)))"
      by (rule scan_spec[OF d p])
    then obtain r where
      r: "scan fn target (Fin b) (Fin d) tol (Fin (a + real (Suc 0) * d))
               (sample a b d 0) (residual fn target (sample a b d 0)) = Some r"
         "r = None \<longleftrightarrow>
                (\<forall>j>0. sampled a b d j \<longrightarrow> \<not> hit fn target tol a b d j) \<and>
                (\<forall>j\<ge>0. sampled a b d (Suc j) \<longrightarrow> \<not> sign_change fn target a b d j)"
         "\<forall>t. r = Some t \<longrightarrow>
                (\<exists>x. t = Fin x \<and> min (a + real 0 * d) b \<le> x \<and> x \<le> b \<and>
                     (\<forall>j. hit fn target tol a b d j \<longrightarrow> x \<le> min (a + real j * d) b))"
      by (elim exE conjE)
    have res: "firstTimeTo osc mass q target options = Some r"
      unfolding unf using False r(1) by (simp add: hit_def s0)
    have e1: "(\<forall>j>0. sampled a b d j \<longrightarrow> \<not> hit fn target tol a b d j)
        \<longleftrightarrow> (\<forall>j. sampled a b d j \<longrightarrow> \<not> hit fn target tol a b d j)"
    proof
      assume h: "\<forall>j>0. sampled a b d j \<longrightarrow> \<not> hit fn target tol a b d j"
      show "\<forall>j. sampled a b d j \<longrightarrow> \<not> hit fn target tol a b d j"
      proof (intro allI impI)
        fix j assume "sampled a b d j"
        then show "\<not> hit fn target tol a b d j" using h False by (cases j) simp_all
      qed
    qed simp
    have e2: "min (a + real 0 * d) b = a" using ab by simp
    show ?thesis
    proof (intro exI[of _ r] conjI)
      show "firstTimeTo osc mass q target options = Some r" by (rule res)
      show "hit fn target tol a b d 0 \<longrightarrow> r = Some (Fin a)" using False by simp
      show "(r = None) =
              ((\<forall>j. sampled a b d j \<longrightarrow> \<not> hit fn target tol a b d j) \<and>
               (\<forall>j. sampled a b d (Suc j) \<longrightarrow> \<not> sign_change fn target a b d j))"
        using r(2) unfolding e1 by simp
      show "\<forall>t. r = Some t \<longrightarrow>
              (\<exists>x. t = Fin x \<and> a \<le> x \<and> x \<le> b \<and>
                   (\<forall>j. hit fn target tol a b d j \<longrightarrow> x \<le> min (a + real j * d) b))"
        using r(3) unfolding e2 .
    qed
  qed
qed

text \<open>
  On an oscillator with finite fields each quantity is a continuous function of the time,
  so a bracket whose ends have residuals of opposite sign holds a time at which the
  quantity equals the target.  The bisection keeps such a bracket and halves it 60 times,
  unless a midpoint comes within tolerance first.
\<close>

lemma quantity_continuous:
  assumes "finite_fields osc"
  shows "\<exists>f. continuous_on UNIV f \<and> (\<forall>t. quantity_fn osc mass q (Fin t) = Fin (f t))"
proof -
  from assms have "is_finite (omega1 osc)" "is_finite (omega2 osc)"
    by (simp_all add: finite_fields_def)
  then obtain w1 w2 where w: "omega1 osc = Fin w1" "omega2 osc = Fin w2"
    by (auto elim!: is_finiteE)
  have "finite_coeffs (if mass = 1 then coeffs1 osc else coeffs2 osc)"
    using assms unfolding finite_fields_def by simp
  then obtain c1 s1 c2 s2 where
    c: "(if mass = 1 then coeffs1 osc else coeffs2 osc)
           = \<lparr> cw1 = Fin c1, sw1 = Fin s1, cw2 = Fin c2, sw2 = Fin s2 \<rparr>"
    by (rule finite_coeffsE)
  define px where "px = (\<lambda>t. c1 * cos (w1 * t) + s1 * sin (w1 * t)
                              + c2 * cos (w2 * t) + s2 * sin (w2 * t))"
  define pv where "pv = (\<lambda>t. - c1 * w1 * sin (w1 * t) + s1 * w1 * cos (w1 * t)
                              + - c2 * w2 * sin (w2 * t) + s2 * w2 * cos (w2 * t))"
  define pa where "pa = (\<lambda>t. - c1 * w1 * w1 * cos (w1 * t) - s1 * w1 * w1 * sin (w1 * t)
                              + - c2 * w2 * w2 * cos (w2 * t) - s2 * w2 * w2 * sin (w2 * t))"
  have cx: "continuous_on UNIV px" unfolding px_def by (intro continuous_intros)
  have cv: "continuous_on UNIV pv" unfolding pv_def by (intro continuous_intros)
  have ca: "continuous_on UNIV pa" unfolding pa_def by (intro continuous_intros)
  have ex: "position osc mass (Fin t) = Fin (px t)" for t
    unfolding px_def by (rule position_Fin[OF w c])
  have ev: "velocity osc mass (Fin t) = Fin (pv t)" for t
    unfolding pv_def by (rule velocity_Fin[OF w c])
  have ea: "acceleration osc mass (Fin t) = Fin (pa t)" for t
    unfolding pa_def by (rule acceleration_Fin[OF w c])
  show ?thesis
  proof (cases "q = ''x''")
    case True
    then have "\<forall>t. quantity_fn osc mass q (Fin t) = Fin (px t)"
      by (simp add: quantity_fn_def ex)
    then show ?thesis using cx by blast
  next
    case nx: False
    show ?thesis
    proof (cases "q = ''v''")
      case True
      then have "\<forall>t. quantity_fn osc mass q (Fin t) = Fin (pv t)"
        using nx by (simp add: quantity_fn_def ev)
      then show ?thesis using cv by blast
    next
      case False
      then have "\<forall>t. quantity_fn osc mass q (Fin t) = Fin (pa t)"
        using nx by (simp add: quantity_fn_def ea)
      then show ?thesis using ca by blast
    qed
  qed
qed

lemma crossing:
  fixes f :: "real \<Rightarrow> real"
  assumes c: "continuous_on UNIV f" and le: "lo \<le> hi"
    and s: "(f lo - c) * (f hi - c) \<le> 0"
  shows "\<exists>z. lo \<le> z \<and> z \<le> hi \<and> f z = c"
proof -
  have con: "continuous_on {lo..hi} f" using c by (rule continuous_on_subset) simp
  from s have "(f lo \<le> c \<and> c \<le> f hi) \<or> (f hi \<le> c \<and> c \<le> f lo)"
    by (auto simp add: mult_le_0_iff)
  then show ?thesis
  proof
    assume "f lo \<le> c \<and> c \<le> f hi"
    then show ?thesis using IVT'[of f lo c hi] le con by blast
  next
    assume "f hi \<le> c \<and> c \<le> f lo"
    then show ?thesis using IVT2'[of f hi c lo] le con by blast
  qed
qed

lemma bisect_spec:
  fixes lo hi c :: real and f :: "real \<Rightarrow> real"
  assumes fn: "\<forall>t. fn (Fin t) = Fin (f t)"
    and le: "lo \<le> hi"
    and s: "(f lo - c) * (f hi - c) \<le> 0"
    and i: "i \<le> 60"
  shows "\<exists>x. fst (bisect fn (Fin c) tol i (Fin lo) (Fin hi) (Fin (f lo - c))) = Fin x \<and>
           lo \<le> x \<and> x \<le> hi \<and>
           (Math_abs (Fin (f x - c)) < tol \<or>
            (\<exists>l h. lo \<le> l \<and> l \<le> h \<and> h \<le> hi \<and> h - l = (hi - lo) / 2 ^ (60 - i) \<and>
                   x = (l + h) / 2 \<and> (f l - c) * (f h - c) \<le> 0))"
  using le s i
proof (induction n \<equiv> "60 - i" arbitrary: i lo hi)
  case 0
  then have "\<not> i < 60" by simp
  then have "fst (bisect fn (Fin c) tol i (Fin lo) (Fin hi) (Fin (f lo - c)))
               = Fin ((lo + hi) / 2)"
    by (subst bisect.simps) simp
  moreover have "lo \<le> (lo + hi) / 2" "(lo + hi) / 2 \<le> hi" using "0.prems" by simp_all
  moreover have "hi - lo = (hi - lo) / 2 ^ (60 - i)" using "0.hyps" by simp
  ultimately show ?case using "0.prems"(1,2) by blast
next
  case (Suc n)
  then have i: "i < 60" and n: "n = 60 - (i + 1)" and i1: "i + 1 \<le> 60" by simp_all
  define mid where "mid = (lo + hi) / 2"
  have r: "lo \<le> mid" "mid \<le> hi" using Suc.prems by (simp_all add: mid_def)
  have unf: "bisect fn (Fin c) tol i (Fin lo) (Fin hi) (Fin (f lo - c)) =
    (if Math_abs (Fin (f mid - c)) < tol then (Fin mid, i + 1)
     else if (f lo - c) * (f mid - c) \<le> 0
          then bisect fn (Fin c) tol (i + 1) (Fin lo) (Fin mid) (Fin (f lo - c))
          else bisect fn (Fin c) tol (i + 1) (Fin mid) (Fin hi) (Fin (f mid - c)))"
    using i fn by (subst bisect.simps) (simp add: Let_def mid_def)
  have half: "(mid - lo) / 2 ^ (60 - (i + 1)) = (hi - lo) / 2 ^ (60 - i)"
             "(hi - mid) / 2 ^ (60 - (i + 1)) = (hi - lo) / 2 ^ (60 - i)"
  proof -
    have e: "60 - i = Suc (60 - (i + 1))" using i by simp
    show "(mid - lo) / 2 ^ (60 - (i + 1)) = (hi - lo) / 2 ^ (60 - i)"
      unfolding e by (simp add: mid_def field_simps)
    show "(hi - mid) / 2 ^ (60 - (i + 1)) = (hi - lo) / 2 ^ (60 - i)"
      unfolding e by (simp add: mid_def field_simps)
  qed
  show ?case
  proof (cases "Math_abs (Fin (f mid - c)) < tol")
    case True
    then show ?thesis unfolding unf using r by (intro exI[of _ mid]) simp
  next
    case False
    show ?thesis
    proof (cases "(f lo - c) * (f mid - c) \<le> 0")
      case True
      from Suc.hyps(1)[OF n r(1) True i1] obtain x l h where
        x: "fst (bisect fn (Fin c) tol (i + 1) (Fin lo) (Fin mid) (Fin (f lo - c))) = Fin x"
           "lo \<le> x" "x \<le> mid"
           "Math_abs (Fin (f x - c)) < tol \<or>
            (lo \<le> l \<and> l \<le> h \<and> h \<le> mid \<and> h - l = (mid - lo) / 2 ^ (60 - (i + 1)) \<and>
                   x = (l + h) / 2 \<and> (f l - c) * (f h - c) \<le> 0)"
        by blast
      have "Math_abs (Fin (f x - c)) < tol \<or>
            (\<exists>l h. lo \<le> l \<and> l \<le> h \<and> h \<le> hi \<and> h - l = (hi - lo) / 2 ^ (60 - i) \<and>
                   x = (l + h) / 2 \<and> (f l - c) * (f h - c) \<le> 0)"
        using x(4) r(2) unfolding half by (elim disjE conjE) (auto intro: order_trans)
      then show ?thesis unfolding unf using False True x(1,2,3) r
        by (intro exI[of _ x]) simp
    next
      case nsc: False
      have sc: "(f mid - c) * (f hi - c) \<le> 0"
      proof -
        from nsc have p: "0 < (f lo - c) * (f mid - c)" by simp
        show ?thesis
        proof (cases "0 < f lo - c")
          case True
          then have "0 < f mid - c" using p by (simp add: zero_less_mult_iff)
          moreover have "f hi - c \<le> 0" using Suc.prems(2) True by (simp add: mult_le_0_iff)
          ultimately show ?thesis by (simp add: mult_le_0_iff)
        next
          case False
          then have "f lo - c < 0" "f mid - c < 0" using p by (auto simp add: zero_less_mult_iff)
          moreover then have "0 \<le> f hi - c" using Suc.prems(2) by (simp add: mult_le_0_iff)
          ultimately show ?thesis by (simp add: mult_le_0_iff)
        qed
      qed
      from Suc.hyps(1)[OF n r(2) sc i1] obtain x l h where
        x: "fst (bisect fn (Fin c) tol (i + 1) (Fin mid) (Fin hi) (Fin (f mid - c))) = Fin x"
           "mid \<le> x" "x \<le> hi"
           "Math_abs (Fin (f x - c)) < tol \<or>
            (mid \<le> l \<and> l \<le> h \<and> h \<le> hi \<and> h - l = (hi - mid) / 2 ^ (60 - (i + 1)) \<and>
                   x = (l + h) / 2 \<and> (f l - c) * (f h - c) \<le> 0)"
        by blast
      have "Math_abs (Fin (f x - c)) < tol \<or>
            (\<exists>l h. lo \<le> l \<and> l \<le> h \<and> h \<le> hi \<and> h - l = (hi - lo) / 2 ^ (60 - i) \<and>
                   x = (l + h) / 2 \<and> (f l - c) * (f h - c) \<le> 0)"
        using x(4) r(1) unfolding half by (elim disjE conjE) (auto intro: order_trans)
      then show ?thesis unfolding unf using False nsc x(1,2,3) r
        by (intro exI[of _ x]) simp
    qed
  qed
qed

lemma firstTimeTo_found:
  fixes a b d :: real and osc :: CoupledOscillator and mass :: int and q :: string
    and target :: jsnum and options :: opts
  assumes tmin: "or_default (tMin options) (Fin 0) = Fin a"
      and tmax: "or_default (tMax options) (Fin 100) = Fin b"
      and step: "or_default (dt options) (Fin (1 / 100)) = Fin d"
      and d: "0 < d" and ab: "a \<le> b"
  defines "fn \<equiv> quantity_fn osc mass q"
  defines "tol \<equiv> or_default (tolerance options) (Fin (1 / 10 ^ 9))"
  assumes res: "firstTimeTo osc mass q target options = Some (Some t)"
  shows "\<exists>x. t = Fin x \<and>
           (x = a \<and> hit fn target tol a b d 0 \<or>
            (\<exists>n. sampled a b d (Suc n) \<and>
                 (\<forall>j\<le>n. \<not> hit fn target tol a b d j) \<and>
                 (\<forall>j<n. \<not> sign_change fn target a b d j) \<and>
                 min (a + real n * d) b \<le> x \<and> x \<le> min (a + real (Suc n) * d) b \<and>
                 (x = min (a + real (Suc n) * d) b \<and> hit fn target tol a b d (Suc n) \<or>
                  \<not> hit fn target tol a b d (Suc n) \<and> sign_change fn target a b d n))) \<and>
           (finite_fields osc \<and> is_finite target \<longrightarrow>
              Math_abs (residual fn target (Fin x)) < tol \<or>
              (\<exists>z. a \<le> z \<and> z \<le> b \<and> fn (Fin z) = target \<and> \<bar>x - z\<bar> \<le> d / 2 ^ 61))"
proof -
  have s0: "sample a b d 0 = Fin a" using ab by (simp add: sample_def)
  note unf = firstTimeTo_unfold[OF tmin tmax step, of osc mass q target, folded fn_def tol_def]
  show ?thesis
  proof (cases "hit fn target tol a b d 0")
    case True
    then have "t = Fin a" using res unfolding unf by (simp add: hit_def s0)
    moreover have "Math_abs (residual fn target (Fin a)) < tol"
      using True by (simp add: hit_def s0)
    ultimately show ?thesis using True by (intro exI[of _ a]) simp
  next
    case H0: False
    have "scan fn target (Fin b) (Fin d) tol (Fin (a + real (Suc 0) * d))
               (sample a b d 0) (residual fn target (sample a b d 0)) = Some (Some t)"
      using res H0 unfolding unf by (simp add: hit_def s0)
    from scan_found[OF d this] obtain n where
      n: "sampled a b d (Suc n)"
         "\<forall>j. 0 < j \<and> j \<le> n \<longrightarrow> \<not> hit fn target tol a b d j"
         "\<forall>j. 0 \<le> j \<and> j < n \<longrightarrow> \<not> sign_change fn target a b d j"
         "hit fn target tol a b d (Suc n) \<and> t = sample a b d (Suc n) \<or>
          \<not> hit fn target tol a b d (Suc n) \<and> sign_change fn target a b d n \<and>
          t = fst (bisect fn target tol 0 (sample a b d n) (sample a b d (Suc n))
                     (residual fn target (sample a b d n)))"
      by blast
    define lo where "lo = min (a + real n * d) b"
    define hi where "hi = min (a + real (Suc n) * d) b"
    have lohi: "lo \<le> hi" "hi - lo \<le> d" unfolding lo_def hi_def by (rule sample_step[OF d])+
    have alo: "a \<le> lo" using ab d by (simp add: lo_def)
    have hib: "hi \<le> b" by (simp add: hi_def)
    have sl: "sample a b d n = Fin lo" "sample a b d (Suc n) = Fin hi"
      by (simp_all add: sample_def lo_def hi_def)
    have nh: "\<forall>j\<le>n. \<not> hit fn target tol a b d j"
    proof (intro allI impI)
      fix j assume "j \<le> n"
      then show "\<not> hit fn target tol a b d j" using n(2) H0 by (cases "j = 0") simp_all
    qed
    have nc: "\<forall>j<n. \<not> sign_change fn target a b d j" using n(3) by simp
    from n(4) show ?thesis
    proof (elim disjE conjE)
      assume h: "hit fn target tol a b d (Suc n)" and t: "t = sample a b d (Suc n)"
      have w: "Math_abs (residual fn target (Fin hi)) < tol" using h by (simp add: hit_def sl)
      have "\<exists>n. sampled a b d (Suc n) \<and>
                 (\<forall>j\<le>n. \<not> hit fn target tol a b d j) \<and>
                 (\<forall>j<n. \<not> sign_change fn target a b d j) \<and>
                 min (a + real n * d) b \<le> hi \<and> hi \<le> min (a + real (Suc n) * d) b \<and>
                 (hi = min (a + real (Suc n) * d) b \<and> hit fn target tol a b d (Suc n) \<or>
                  \<not> hit fn target tol a b d (Suc n) \<and> sign_change fn target a b d n)"
        using n(1) nh nc lohi(1) h unfolding lo_def hi_def by (intro exI[of _ n]) simp
      then show ?thesis using t w unfolding sl by (intro exI[of _ hi]) simp
    next
      assume h: "\<not> hit fn target tol a b d (Suc n)" and c: "sign_change fn target a b d n"
        and t: "t = fst (bisect fn target tol 0 (sample a b d n) (sample a b d (Suc n))
                     (residual fn target (sample a b d n)))"
      from bisect_range[OF lohi(1), of fn target tol 0 "residual fn target (Fin lo)"]
      obtain x where x: "fst (bisect fn target tol 0 (Fin lo) (Fin hi)
                            (residual fn target (Fin lo))) = Fin x" "lo \<le> x" "x \<le> hi"
        by blast
      have tx: "t = Fin x" using t x(1) unfolding sl by simp
      have cell: "\<exists>n. sampled a b d (Suc n) \<and>
                 (\<forall>j\<le>n. \<not> hit fn target tol a b d j) \<and>
                 (\<forall>j<n. \<not> sign_change fn target a b d j) \<and>
                 min (a + real n * d) b \<le> x \<and> x \<le> min (a + real (Suc n) * d) b \<and>
                 (x = min (a + real (Suc n) * d) b \<and> hit fn target tol a b d (Suc n) \<or>
                  \<not> hit fn target tol a b d (Suc n) \<and> sign_change fn target a b d n)"
        using n(1) nh nc x(2,3) h c unfolding lo_def hi_def by (intro exI[of _ n]) simp
      have fin: "Math_abs (residual fn target (Fin x)) < tol \<or>
              (\<exists>z. a \<le> z \<and> z \<le> b \<and> fn (Fin z) = target \<and> \<bar>x - z\<bar> \<le> d / 2 ^ 61)"
        if ff: "finite_fields osc" and ft: "is_finite target"
      proof -
        from quantity_continuous[OF ff, of mass q] obtain f where
          f: "continuous_on UNIV f" "\<forall>t. fn (Fin t) = Fin (f t)"
          unfolding fn_def by blast
        from ft obtain c where c: "target = Fin c" by (rule is_finiteE)
        have rl: "residual fn target (Fin y) = Fin (f y - c)" for y
          by (simp add: residual_def f(2) c)
        have sc: "(f lo - c) * (f hi - c) \<le> 0"
          using \<open>sign_change fn target a b d n\<close> by (simp add: sign_change_def sl rl)
        have "\<exists>x. fst (bisect fn (Fin c) tol 0 (Fin lo) (Fin hi) (Fin (f lo - c))) = Fin x \<and>
           lo \<le> x \<and> x \<le> hi \<and>
           (Math_abs (Fin (f x - c)) < tol \<or>
            (\<exists>l h. lo \<le> l \<and> l \<le> h \<and> h \<le> hi \<and> h - l = (hi - lo) / 2 ^ (60 - 0) \<and>
                   x = (l + h) / 2 \<and> (f l - c) * (f h - c) \<le> 0))"
          by (rule bisect_spec[OF f(2) lohi(1) sc]) simp
        then obtain x' where
          x': "fst (bisect fn (Fin c) tol 0 (Fin lo) (Fin hi) (Fin (f lo - c))) = Fin x'"
              "Math_abs (Fin (f x' - c)) < tol \<or>
               (\<exists>l h. lo \<le> l \<and> l \<le> h \<and> h \<le> hi \<and> h - l = (hi - lo) / 2 ^ (60 - 0) \<and>
                   x' = (l + h) / 2 \<and> (f l - c) * (f h - c) \<le> 0)"
          by (elim exE conjE)
        have "Fin x' = Fin x" using x(1) x'(1) unfolding c rl[unfolded c] by (simp only:)
        then have "x' = x" by simp
        from x'(2)[unfolded this]
        show ?thesis
        proof
          assume "Math_abs (Fin (f x - c)) < tol"
          then show ?thesis by (simp add: rl)
        next
          assume "\<exists>l h. lo \<le> l \<and> l \<le> h \<and> h \<le> hi \<and> h - l = (hi - lo) / 2 ^ (60 - 0) \<and>
                   x = (l + h) / 2 \<and> (f l - c) * (f h - c) \<le> 0"
          then obtain l h where
            lh: "lo \<le> l" "l \<le> h" "h \<le> hi" "h - l = (hi - lo) / 2 ^ 60"
                "x = (l + h) / 2" "(f l - c) * (f h - c) \<le> 0"
            by auto
          from crossing[OF f(1) lh(2) lh(6)] obtain z where
            z: "l \<le> z" "z \<le> h" "f z = c" by blast
          have "x - z \<le> (h - l) / 2" "- (x - z) \<le> (h - l) / 2"
            using z(1,2) unfolding lh(5) by (simp_all add: field_simps)
          then have "\<bar>x - z\<bar> \<le> (h - l) / 2" by (simp only: abs_le_iff simp_thms)
          also have "\<dots> = (hi - lo) / 2 ^ 61" using lh(4) by simp
          also have "\<dots> \<le> d / 2 ^ 61" using lohi(2) by (simp add: divide_right_mono)
          finally have "\<bar>x - z\<bar> \<le> d / 2 ^ 61" .
          moreover have "a \<le> z" "z \<le> b" using z(1,2) lh(1,3) alo hib by linarith+
          moreover have "fn (Fin z) = target" using z(3) f(2) c by simp
          ultimately show ?thesis by blast
        qed
      qed
      show ?thesis using tx cell fin by (intro exI[of _ x]) blast
    qed
  qed
qed

text \<open>
  An oscillator whose first mass moves as \<open>cos t\<close>, and the bounds on \<open>cos 7\<close>, \<open>cos 1\<close> and
  \<open>cos 2\<close> that decide its samples below.
\<close>

lemma cosine_oscillator:
  "compute (fin_params 1 1 1 0 1 1 0 0 0) =
    \<lparr> m1 = Fin 1, m2 = Fin 1, k1 = Fin 1, k2 = Fin 0, k3 = Fin 1,
       x10 = Fin 1, x20 = Fin 0, v10 = Fin 0, v20 = Fin 0,
       omega1 = Fin 1, omega2 = Fin 1, r1 = Fin 0, r2 = Fin 0,
       A1 = Fin 1, A2 = Fin 0, B1 = Fin 0, B2 = Fin 0,
       coeffs1 = \<lparr> cw1 = Fin 1, sw1 = Fin 0, cw2 = Fin 0, sw2 = Fin 0 \<rparr>,
       coeffs2 = \<lparr> cw1 = Fin 0, sw1 = Fin 0, cw2 = Fin 0, sw2 = Fin 0 \<rparr> \<rparr>"
  by (simp add: compute_def fin_params_def Let_def eps14_def)

lemma cosine_position:
  "position (compute (fin_params 1 1 1 0 1 1 0 0 0)) 1 (Fin t) = Fin (cos t)"
  by (simp add: cosine_oscillator position_def)

lemma pi_ge_3: "3 \<le> pi"
  using sin_x_le_x[of "pi / 6"] by (simp add: sin_30)

lemma cos_7: "1 / 2 \<le> cos (7::real)"
proof -
  have "cos (7::real) = cos (7 - 2 * pi + 2 * pi)" by simp
  also have "\<dots> = cos (7 - 2 * pi)" by (rule cos_periodic)
  also have "\<dots> = cos \<bar>7 - 2 * pi\<bar>" by simp
  finally have e: "cos (7::real) = cos \<bar>7 - 2 * pi\<bar>" .
  have "\<bar>7 - 2 * pi\<bar> \<le> pi / 3" using pi_ge_3 pi_less_4 by linarith
  then have "cos (pi / 3) \<le> cos \<bar>7 - 2 * pi\<bar>"
    using pi_ge_3 by (intro cos_monotone_0_pi_le) simp_all
  then show ?thesis by (simp add: e cos_60)
qed

lemma cos_1: "1 / 2 \<le> cos (1::real)"
proof -
  have "cos (pi / 3) \<le> cos (1::real)"
    using pi_ge_3 by (intro cos_monotone_0_pi_le) simp_all
  then show ?thesis by (simp add: cos_60)
qed

lemma sin_1: "19 / 24 \<le> sin (1::real)"
proof -
  have "\<bar>sin (1::real) - (\<Sum>m<4. sin_coeff m * 1 ^ m)\<bar> \<le> inverse (fact 4) * \<bar>1\<bar> ^ 4"
    by (rule Maclaurin_sin_bound)
  moreover have "(\<Sum>m<4. sin_coeff m * (1::real) ^ m) = 5 / 6"
  proof -
    have "(\<Sum>m<4. sin_coeff m * (1::real) ^ m)
            = sin_coeff 0 + sin_coeff 1 + sin_coeff 2 + sin_coeff 3"
      by (simp add: numeral_eq_Suc del: sin_coeff_Suc)
    also have "\<dots> = 5 / 6" by (simp add: sin_coeff_def fact_numeral)
    finally show ?thesis .
  qed
  moreover have "inverse (fact 4) * \<bar>1::real\<bar> ^ 4 = 1 / 24"
    by (simp add: eval_nat_numeral)
  ultimately show ?thesis by (simp add: abs_le_iff)
qed

lemma cos_2: "cos (2::real) \<le> - 1 / 4"
proof -
  have "cos (2 * (1::real)) = 1 - 2 * (sin 1)\<^sup>2" by (rule cos_double_sin)
  moreover have "(19 / 24)\<^sup>2 \<le> (sin (1::real))\<^sup>2"
    using sin_1 by (intro power_mono) simp_all
  ultimately show ?thesis by (simp add: power2_eq_square)
qed

lemma mediant_search_iter:
  "iter s \<le> 200 \<Longrightarrow> iter (fst (mediant_search x maxDen tol s)) \<le> 200"
proof (induction n \<equiv> "200 - iter s" arbitrary: s)
  case 0
  then have "\<not> iter s < 200" by simp
  then show ?case using "0.prems" by (subst mediant_search.simps) simp
next
  case (Suc n)
  then have i: "iter s < 200" by simp
  have step: "iter (fst (mediant_search x maxDen tol (s'\<lparr> iter := iter s + 1 \<rparr>))) \<le> 200" for s'
    using Suc.hyps(1)[of "s'\<lparr> iter := iter s + 1 \<rparr>"] Suc.hyps(2) i by simp
  show ?case
    using i Suc.prems step
    by (subst mediant_search.simps) (simp add: Let_def)
qed

section \<open>The claims on \<open>firstTimeTo\<close> and on termination\<close>




text \<open>
  Claim C9.  The coarse scan of \<open>firstTimeTo\<close> has no bound on its iterations and no guard
  on \<open>dt\<close>: called with \<open>dt = 0\<close>, \<open>tMin = 0\<close>, \<open>tMax = 1\<close> and a target that the position
  \<open>cos t\<close> never reaches, it stays at \<open>t = tMin\<close> and never returns, where the method is
  documented to return a number or \<open>null\<close>.  The other loops are bounded: the bisection
  enters at most 60 bodies (\<open>bisect_count\<close>) and the mediant search of \<open>decimalToFraction\<close>
  ends with its counter at most 200 (\<open>mediant_search_iter\<close>).
\<close>

theorem zero_step_never_returns:
  "firstTimeTo (compute (fin_params 1 1 1 0 1 1 0 0 0)) 1 ''x'' (Fin 999)
      \<lparr> tMin = Some (Fin 0), tMax = Some (Fin 1), dt = Some (Fin 0), tolerance = None \<rparr>
     = None"
proof -
  have "scan (position (compute (fin_params 1 1 1 0 1 1 0 0 0)) 1) (Fin 999) (Fin 1) (Fin 0)
          (Fin (1 / 10 ^ 9)) (Fin 0) (Fin 0) (Fin (- 998)) = None"
    by (rule scan_diverges) (simp_all add: cosine_position)
  then show ?thesis
    by (simp add: firstTimeTo_def quantity_fn_def or_default_def Let_def cosine_position)
qed

text \<open>
  Claim C10.  For every mass, target and options, \<open>firstTimeTo\<close> called with a quantity
  other than \<open>'x'\<close> and \<open>'v'\<close> behaves as the call with \<open>'a'\<close>; its result is a time,
  \<open>null\<close>, or no return, and never an error.
\<close>

theorem other_quantity_is_acceleration:
  assumes "quantity \<noteq> ''x''" "quantity \<noteq> ''v''"
  shows "firstTimeTo osc mass quantity target options = firstTimeTo osc mass ''a'' target options"
  using assms by (simp add: firstTimeTo_def quantity_fn_def)

text \<open>The theorem at the quantity \<open>'position'\<close>, which is read as the acceleration.\<close>

theorem other_quantity_is_acceleration_witness:
  "firstTimeTo (compute (fin_params 1 1 1 0 1 1 0 0 0)) 1 ''position'' (Fin 0)
      \<lparr> tMin = None, tMax = None, dt = None, tolerance = None \<rparr>
   = firstTimeTo (compute (fin_params 1 1 1 0 1 1 0 0 0)) 1 ''a'' (Fin 0)
      \<lparr> tMin = None, tMax = None, dt = None, tolerance = None \<rparr>"
  using other_quantity_is_acceleration [of "''position''"] by simp

section \<open>The fraction utilities\<close>

subsection \<open>\<open>gcd\<close> and the two reductions\<close>

lemma gcd_while_gcd: "gcd_while a b = gcd a b"
proof (induction a b rule: gcd_while.induct)
  case (1 a b)
  show ?case
  proof (cases "b = 0")
    case True
    then show ?thesis by (subst gcd_while.simps) simp
  next
    case False
    have "gcd_while a b = gcd_while b (a mod b)" using False by (subst gcd_while.simps) simp
    also have "\<dots> = gcd b (a mod b)" using 1 False by simp
    also have "\<dots> = gcd a b" by (metis gcd.commute gcd_red_nat)
    finally show ?thesis .
  qed
qed

lemma gcd_while_int: "int (gcd_while (nat \<bar>a\<bar>) (nat \<bar>b\<bar>)) = gcd a b"
  unfolding gcd_while_gcd by (rule gcd_int_def[symmetric])

lemma gcd_fraction_gcd: "gcd_fraction a b = (if gcd a b = 0 then 1 else gcd a b)"
proof -
  have "gcd_while (nat \<bar>a\<bar>) (nat \<bar>b\<bar>) \<noteq> 0 \<longleftrightarrow> gcd a b \<noteq> 0"
    using gcd_while_int[of a b] by (metis of_nat_eq_0_iff)
  then show ?thesis
    unfolding gcd_fraction_def Let_def using gcd_while_int[of a b] by simp
qed

lemma gcd_Fractions_gcd: "gcd_Fractions a b = gcd a b"
  unfolding gcd_Fractions_def by (rule gcd_while_int)

lemma reduced_ints:
  fixes p q :: int
  assumes "0 < q" "coprime p q"
  shows "reduced (Fin (of_int p)) (Fin (of_int q))"
  using assms by (auto simp: reduced_def is_integer_def)

lemma reduceFraction_spec:
  assumes d: "d \<noteq> 0"
  shows "\<exists>p q. reduceFraction n d = \<lparr> num = Fin (of_int p), den = Fin (of_int q) \<rparr> \<and>
            0 < q \<and> q \<le> \<bar>d\<bar> \<and> coprime p q \<and> (n = 0 \<longrightarrow> q = 1) \<and>
            real_of_int p * real_of_int d = real_of_int n * real_of_int q"
proof (cases "n = 0")
  case True
  have "reduceFraction n d = \<lparr> num = Fin (of_int 0), den = Fin (of_int 1) \<rparr>"
    using True d by (simp add: reduceFraction_def)
  moreover have "(1::int) \<le> \<bar>d\<bar>" using d by simp
  ultimately show ?thesis using True by (intro exI[of _ 0] exI[of _ 1]) simp
next
  case False
  define g where "g = gcd \<bar>n\<bar> \<bar>d\<bar>"
  define sg :: int where "sg = (if (n < 0) \<noteq> (d < 0) then - 1 else 1)"
  have gpos: "0 < g" unfolding g_def using d by (simp add: gcd_pos_int)
  have gn: "g dvd \<bar>n\<bar>" and gd: "g dvd \<bar>d\<bar>" unfolding g_def by simp_all
  have gf: "gcd_fraction \<bar>n\<bar> \<bar>d\<bar> = g"
    unfolding gcd_fraction_gcd g_def using gpos[unfolded g_def] by simp
  have res: "reduceFraction n d =
      \<lparr> num = Fin (of_int (sg * (\<bar>n\<bar> div g))), den = Fin (of_int (\<bar>d\<bar> div g)) \<rparr>"
    unfolding reduceFraction_def Let_def
    using d False gpos
    by (simp add: gf sg_def real_of_int_div[OF gn, symmetric] real_of_int_div[OF gd, symmetric]
          del: of_int_abs abs_abs)
  have q: "0 < \<bar>d\<bar> div g" using gpos gd d
    by (simp add: pos_imp_zdiv_pos_iff zdvd_imp_le)
  have q2: "\<bar>d\<bar> div g \<le> \<bar>d\<bar>"
  proof -
    have "(\<bar>d\<bar> div g) * 1 \<le> (\<bar>d\<bar> div g) * g"
      using q gpos by (intro mult_left_mono) simp_all
    also have "\<dots> = \<bar>d\<bar>" using gd by simp
    finally show ?thesis by simp
  qed
  have "coprime (\<bar>n\<bar> div g) (\<bar>d\<bar> div g)"
    unfolding g_def using d by (intro div_gcd_coprime) simp
  then have cp: "coprime (sg * (\<bar>n\<bar> div g)) (\<bar>d\<bar> div g)"
    by (simp add: sg_def)
  have "sg * \<bar>n\<bar> * d = n * \<bar>d\<bar>" by (simp add: sg_def abs_if)
  moreover have "\<bar>n\<bar> = (\<bar>n\<bar> div g) * g" "\<bar>d\<bar> = (\<bar>d\<bar> div g) * g" using gn gd by simp_all
  ultimately have "(sg * (\<bar>n\<bar> div g)) * d * g = n * (\<bar>d\<bar> div g) * g"
    by (metis (no_types, lifting) mult.assoc mult.commute)
  then have "(sg * (\<bar>n\<bar> div g)) * d = n * (\<bar>d\<bar> div g)" using gpos by simp
  then have v: "real_of_int (sg * (\<bar>n\<bar> div g)) * real_of_int d
                 = real_of_int n * real_of_int (\<bar>d\<bar> div g)"
    by (metis of_int_mult)
  show ?thesis
    using res q q2 cp v False
    by (intro exI[of _ "sg * (\<bar>n\<bar> div g)"] exI[of _ "\<bar>d\<bar> div g"]) simp
qed

lemma reduce_spec:
  assumes d: "d \<noteq> 0"
  shows "\<exists>p q. reduce n d = \<lparr> fr_n = Fin (of_int p), fr_d = Fin (of_int q) \<rparr> \<and>
            0 < q \<and> coprime p q"
proof -
  define g where "g = gcd \<bar>n\<bar> \<bar>d\<bar>"
  have gpos: "0 < g" unfolding g_def using d by (simp add: gcd_pos_int)
  have gn: "g dvd n" and gd: "g dvd d" unfolding g_def by simp_all
  have gf: "gcd_Fractions \<bar>n\<bar> \<bar>d\<bar> = g" by (simp add: gcd_Fractions_gcd g_def)
  have dq: "d div g \<noteq> 0" using gd d gpos by (metis dvd_div_eq_0_iff)
  have cp: "coprime (n div g) (d div g)"
  proof -
    have "g = gcd n d" by (simp add: g_def)
    then show ?thesis using d by (simp add: div_gcd_coprime)
  qed
  have res: "reduce n d =
      (if d div g < 0 then \<lparr> fr_n = Fin (of_int (- (n div g))), fr_d = Fin (of_int (- (d div g))) \<rparr>
       else \<lparr> fr_n = Fin (of_int (n div g)), fr_d = Fin (of_int (d div g)) \<rparr>)"
    unfolding reduce_def Let_def gf
    using d gpos
    by (simp add: real_of_int_div[OF gn, symmetric] real_of_int_div[OF gd, symmetric])
  show ?thesis
  proof (cases "d div g < 0")
    case True
    then show ?thesis using res cp
      by (intro exI[of _ "- (n div g)"] exI[of _ "- (d div g)"]) simp
  next
    case False
    then have "0 < d div g" using dq by simp
    then show ?thesis using res cp False
      by (intro exI[of _ "n div g"] exI[of _ "d div g"]) simp
  qed
qed

lemma reduce_value:
  assumes d: "d \<noteq> 0"
  shows "\<exists>p q. reduce n d = \<lparr> fr_n = Fin (of_int p), fr_d = Fin (of_int q) \<rparr> \<and>
            0 < q \<and> q \<le> \<bar>d\<bar> \<and>
            real_of_int p * real_of_int d = real_of_int n * real_of_int q"
proof -
  define g where "g = gcd \<bar>n\<bar> \<bar>d\<bar>"
  have gpos: "0 < g" unfolding g_def using d by (simp add: gcd_pos_int)
  have gn: "g dvd n" and gd: "g dvd d" unfolding g_def by simp_all
  have gf: "gcd_Fractions \<bar>n\<bar> \<bar>d\<bar> = g" by (simp add: gcd_Fractions_gcd g_def)
  have dq: "d div g \<noteq> 0" using gd d gpos by (metis dvd_div_eq_0_iff)
  have res: "reduce n d =
      (if d div g < 0 then \<lparr> fr_n = Fin (of_int (- (n div g))), fr_d = Fin (of_int (- (d div g))) \<rparr>
       else \<lparr> fr_n = Fin (of_int (n div g)), fr_d = Fin (of_int (d div g)) \<rparr>)"
    unfolding reduce_def Let_def gf
    using d gpos
    by (simp add: real_of_int_div[OF gn, symmetric] real_of_int_div[OF gd, symmetric])
  have nn: "n = (n div g) * g" and dd: "d = (d div g) * g" using gn gd by simp_all
  have cross: "(n div g) * d = n * (d div g)"
  proof -
    have "(n div g) * d = (n div g) * ((d div g) * g)" using dd by simp
    also have "\<dots> = ((n div g) * g) * (d div g)" by (simp add: mult.assoc mult.commute)
    also have "\<dots> = n * (d div g)" using nn by simp
    finally show ?thesis .
  qed
  then have crossr: "real_of_int (n div g) * real_of_int d = real_of_int n * real_of_int (d div g)"
    by (metis of_int_mult)
  have le: "\<bar>d div g\<bar> \<le> \<bar>d\<bar>"
  proof -
    have "\<bar>d div g\<bar> * 1 \<le> \<bar>d div g\<bar> * g" using gpos by (intro mult_left_mono) simp_all
    also have "\<dots> = \<bar>(d div g) * g\<bar>" using gpos by (simp add: abs_mult)
    also have "\<dots> = \<bar>d\<bar>" using dd by simp
    finally show ?thesis by simp
  qed
  show ?thesis
  proof (cases "d div g < 0")
    case True
    then show ?thesis using res le crossr
      by (intro exI[of _ "- (n div g)"] exI[of _ "- (d div g)"]) simp
  next
    case False
    then have "0 < d div g" using dq by simp
    then show ?thesis using res le crossr False
      by (intro exI[of _ "n div g"] exI[of _ "d div g"]) simp
  qed
qed

lemma reduceFraction_reduced:
  assumes "d \<noteq> 0"
  shows "reduced (num (reduceFraction n d)) (den (reduceFraction n d))"
proof -
  from reduceFraction_spec[OF assms, of n] obtain p q where
    "reduceFraction n d = \<lparr> num = Fin (of_int p), den = Fin (of_int q) \<rparr>" "0 < q" "coprime p q"
    by blast
  then show ?thesis using reduced_ints[of q p] by simp
qed

lemma reduce_reduced:
  assumes "d \<noteq> 0"
  shows "reduced (fr_n (reduce n d)) (fr_d (reduce n d))"
proof -
  from reduce_spec[OF assms, of n] obtain p q where
    "reduce n d = \<lparr> fr_n = Fin (of_int p), fr_d = Fin (of_int q) \<rparr>" "0 < q" "coprime p q"
    by blast
  then show ?thesis using reduced_ints[of q p] by simp
qed

subsection \<open>The denominators of the mediant search\<close>

lemma mediant_search_dens:
  "dens_ok s \<Longrightarrow> dens_ok (fst (mediant_search x maxDen tol s))"
proof (induction n \<equiv> "200 - iter s" arbitrary: s)
  case 0
  then have "\<not> iter s < 200" by simp
  then have "mediant_search x maxDen tol s = (s, CapReached)"
    by (subst mediant_search.simps) (simp del: mediant_search.simps)
  then show ?case using "0.prems" by simp
next
  case (Suc n)
  then have it: "iter s < 200" by simp
  define med_n where "med_n = lo_n s + hi_n s"
  define med_d where "med_d = lo_d s + hi_d s"
  define medVal where "medVal = Fin (of_int med_n) / Fin (of_int med_d)"
  define err where "err = Math_abs (Fin x - medVal)"
  define s1 where "s1 = (if err < bestErr s
                   then s\<lparr> bestErr := err, best_n := med_n, best_d := med_d \<rparr>
                   else s)"
  define s2 where "s2 = (if medVal < Fin x then s1\<lparr> lo_n := med_n, lo_d := med_d \<rparr>
              else s1\<lparr> hi_n := med_n, hi_d := med_d \<rparr>)\<lparr> iter := iter s + 1 \<rparr>"
  have unf: "mediant_search x maxDen tol s =
    (if maxDen < Fin (of_int med_d) then (s, DenExceeded)
     else if err < tol then (s1, TolReached)
     else mediant_search x maxDen tol s2)"
    using it
    by (subst mediant_search.simps)
       (simp add: Let_def med_n_def med_d_def medVal_def err_def s1_def s2_def
             del: mediant_search.simps)
  have md: "1 \<le> med_d" using Suc.prems by (simp add: dens_ok_def med_d_def)
  have d1: "dens_ok s1" using Suc.prems md by (simp add: s1_def dens_ok_def)
  have d2: "dens_ok s2" using d1 md by (simp add: s2_def dens_ok_def)
  have "iter s1 = iter s" by (simp add: s1_def)
  then have "iter s2 = iter s + 1" by (simp add: s2_def)
  then have n: "n = 200 - iter s2" using Suc.hyps(2) by simp
  note IH = Suc.hyps(1)[OF n d2]
  show ?case
    unfolding unf using Suc.prems d1 IH by (simp del: mediant_search.simps)
qed

lemma mediant_search_Fractions_dens:
  "dens_ok s \<Longrightarrow> dens_ok (fst (mediant_search_Fractions ax maxDen s))"
proof (induction n \<equiv> "10000 - iter s" arbitrary: s)
  case 0
  then have "\<not> iter s < 10000" by simp
  then have "mediant_search_Fractions ax maxDen s = (s, CapReached)"
    by (subst mediant_search_Fractions.simps) (simp del: mediant_search_Fractions.simps)
  then show ?case using "0.prems" by simp
next
  case (Suc n)
  then have it: "iter s < 10000" by simp
  define med_n where "med_n = lo_n s + hi_n s"
  define med_d where "med_d = lo_d s + hi_d s"
  define val where "val = Fin (of_int med_n) / Fin (of_int med_d)"
  define err where "err = Math_abs (Fin ax - val)"
  define s1 where "s1 = (if err < bestErr s
                   then s\<lparr> bestErr := err, best_n := med_n, best_d := med_d \<rparr>
                   else s)"
  define s2 where "s2 = s1\<lparr> lo_n := med_n, lo_d := med_d, iter := iter s + 1 \<rparr>"
  define s3 where "s3 = s1\<lparr> hi_n := med_n, hi_d := med_d, iter := iter s + 1 \<rparr>"
  have unf: "mediant_search_Fractions ax maxDen s =
    (if maxDen < Fin (of_int med_d) then (s, DenExceeded)
     else if val < Fin ax then mediant_search_Fractions ax maxDen s2
     else if Fin ax < val then mediant_search_Fractions ax maxDen s3
     else (s1, ExactHit))"
    using it
    by (subst mediant_search_Fractions.simps)
       (simp add: Let_def med_n_def med_d_def val_def err_def s1_def s2_def s3_def
             del: mediant_search_Fractions.simps)
  have md: "1 \<le> med_d" using Suc.prems by (simp add: dens_ok_def med_d_def)
  have d1: "dens_ok s1" using Suc.prems md by (simp add: s1_def dens_ok_def)
  have d2: "dens_ok s2" "dens_ok s3" using d1 md by (simp_all add: s2_def s3_def dens_ok_def)
  have "iter s2 = iter s + 1" "iter s3 = iter s + 1" by (simp_all add: s2_def s3_def)
  then have n: "n = 10000 - iter s2" "n = 10000 - iter s3" using Suc.hyps(2) by simp_all
  note IH = Suc.hyps(1)[OF n(1) d2(1)] Suc.hyps(1)[OF n(2) d2(2)]
  show ?case
    unfolding unf using Suc.prems d1 IH by (simp del: mediant_search_Fractions.simps)
qed

lemma sb_init_dens: "dens_ok (sb_init x)"
  by (simp add: dens_ok_def sb_init_def)

lemma sb_init_Fractions_dens: "dens_ok (sb_init_Fractions ax)"
  by (simp add: dens_ok_def sb_init_Fractions_def Let_def)

lemma decimalToFraction_reduced:
  "reduced (num (decimalToFraction (Fin r) maxDen tol)) (den (decimalToFraction (Fin r) maxDen tol))"
proof -
  define mx where "mx = or_default maxDen (Fin 10000)"
  define tl where "tl = or_default tol (Fin (1 / 10 ^ 9))"
  define s where "s = fst (mediant_search \<bar>r\<bar> mx tl (sb_init \<bar>r\<bar>))"
  have "dens_ok s" unfolding s_def by (rule mediant_search_dens[OF sb_init_dens])
  then have bd: "best_d s \<noteq> 0" by (simp add: dens_ok_def)
  have z: "reduced (Fin 0) (Fin 1)" using reduced_ints[of 1 0] by simp
  have "decimalToFraction (Fin r) maxDen tol =
     (if Math_abs (Fin r) < tl then \<lparr> num = Fin 0, den = Fin 1 \<rparr>
      else reduceFraction ((if r < 0 then - 1 else 1) * best_n s) (best_d s))"
    unfolding decimalToFraction_def Let_def mx_def tl_def s_def
    by (simp del: mediant_search.simps)
  then show ?thesis using z reduceFraction_reduced[OF bd] by simp
qed

lemma toFraction_reduced:
  assumes "toFraction (Fin r) maxDen = Some f"
  shows "reduced (fr_n f) (fr_d f)"
proof -
  define mx where "mx = or_default maxDen (Fin 1000)"
  define s where "s = fst (mediant_search_Fractions \<bar>r\<bar> mx (sb_init_Fractions \<bar>r\<bar>))"
  have "dens_ok s" unfolding s_def
    by (rule mediant_search_Fractions_dens[OF sb_init_Fractions_dens])
  then have bd: "best_d s \<noteq> 0" by (simp add: dens_ok_def)
  have z: "reduced (Fin (of_int k)) (Fin 1)" for k using reduced_ints[of 1 k] by simp
  have unf: "toFraction (Fin r) maxDen =
     (if r = 0 then Some \<lparr> fr_n = Fin 0, fr_d = Fin 1 \<rparr>
      else if Fin (10 ^ 10) < Math_abs (Fin r) then None
      else if \<bar>r\<bar> = of_int (Math_floor \<bar>r\<bar>) then
         Some \<lparr> fr_n = Fin (of_int (if r < 0 then - Math_round \<bar>r\<bar> else Math_round \<bar>r\<bar>)),
                fr_d = Fin 1 \<rparr>
      else Some (reduce (if r < 0 then - best_n s else best_n s) (best_d s)))"
    unfolding toFraction_def Let_def mx_def s_def
    by (simp del: mediant_search_Fractions.simps)
  show ?thesis
  proof (cases "r = 0")
    case True
    then have "f = \<lparr> fr_n = Fin 0, fr_d = Fin 1 \<rparr>" using assms unfolding unf by simp
    then show ?thesis using z[of 0] by simp
  next
    case nz: False
    show ?thesis
    proof (cases "\<bar>r\<bar> = of_int (Math_floor \<bar>r\<bar>)")
      case True
      then have "f = \<lparr> fr_n = Fin (of_int (if r < 0 then - Math_round \<bar>r\<bar> else Math_round \<bar>r\<bar>)),
                fr_d = Fin 1 \<rparr>"
        using assms nz unfolding unf by (simp split: if_splits)
      then show ?thesis using z by simp
    next
      case False
      then have "f = reduce (if r < 0 then - best_n s else best_n s) (best_d s)"
        using assms nz unfolding unf by (simp split: if_splits)
      then show ?thesis using reduce_reduced[OF bd] by simp
    qed
  qed
qed

subsection \<open>The bracket of the mediant search\<close>

lemma sb_inv_iter [simp]: "sb_inv x N (s\<lparr> iter := k \<rparr>) = sb_inv x N s"
  by (simp add: sb_inv_def)

lemma sb_step:
  fixes x N :: real
  assumes inv: "sb_inv x N s"
    and den: "of_int (lo_d s + hi_d s) \<le> N"
  defines "med_n \<equiv> lo_n s + hi_n s" and "med_d \<equiv> lo_d s + hi_d s"
  defines "m \<equiv> real_of_int med_n / real_of_int med_d"
  defines "s1 \<equiv> (if Fin \<bar>x - m\<bar> < bestErr s
                   then s\<lparr> bestErr := Fin \<bar>x - m\<bar>, best_n := med_n, best_d := med_d \<rparr>
                   else s)"
  shows "m < x \<Longrightarrow> sb_inv x N (s1\<lparr> lo_n := med_n, lo_d := med_d \<rparr>)"
    and "\<not> m < x \<Longrightarrow> sb_inv x N (s1\<lparr> hi_n := med_n, hi_d := med_d \<rparr>)"
    and "\<bar>x - real_of_int (best_n s1) / real_of_int (best_d s1)\<bar> \<le> \<bar>x - m\<bar>"
    and "sb_inv x N s1"
proof -
  have I: "1 \<le> lo_d s" "0 \<le> hi_d s" "1 \<le> best_d s"
     "hi_n s * lo_d s - lo_n s * hi_d s = 1"
     "of_int (lo_n s) \<le> x * of_int (lo_d s)"
     "x * of_int (hi_d s) \<le> of_int (hi_n s)"
     "best_d s = 1 \<or> of_int (best_d s) \<le> N"
     "bestErr s = Fin \<bar>x - of_int (best_n s) / of_int (best_d s)\<bar>"
     "\<bar>x - of_int (best_n s) / of_int (best_d s)\<bar> \<le> x - of_int (lo_n s) / of_int (lo_d s)"
     "0 < hi_d s \<longrightarrow>
        \<bar>x - of_int (best_n s) / of_int (best_d s)\<bar> \<le> of_int (hi_n s) / of_int (hi_d s) - x"
    using inv by (simp_all add: sb_inv_def)
  have md: "1 \<le> med_d" using I(1,2) by (simp add: med_d_def)
  then have mdr: "0 < real_of_int med_d" by simp
  have uni_lo: "hi_n s * med_d - med_n * hi_d s = 1"
    using I(4) by (simp add: med_d_def med_n_def algebra_simps)
  have uni_hi: "med_n * lo_d s - lo_n s * med_d = 1"
    using I(4) by (simp add: med_d_def med_n_def algebra_simps)
  define B where "B = \<bar>x - of_int (best_n s) / of_int (best_d s)\<bar>"
  define B1 where "B1 = \<bar>x - real_of_int (best_n s1) / real_of_int (best_d s1)\<bar>"
  have B1: "B1 = (if \<bar>x - m\<bar> < B then \<bar>x - m\<bar> else B)"
    by (simp add: B1_def B_def s1_def I(8) m_def)
  have s1_same: "lo_n s1 = lo_n s" "lo_d s1 = lo_d s" "hi_n s1 = hi_n s" "hi_d s1 = hi_d s"
    by (simp_all add: s1_def)
  have s1_best: "1 \<le> best_d s1" "best_d s1 = 1 \<or> of_int (best_d s1) \<le> N"
      "bestErr s1 = Fin B1"
    using I(3,7,8) md den by (auto simp: s1_def B1_def med_d_def m_def)
  have le_old: "B1 \<le> B" and le_m: "B1 \<le> \<bar>x - m\<bar>" by (simp_all add: B1)
  show "\<bar>x - real_of_int (best_n s1) / real_of_int (best_d s1)\<bar> \<le> \<bar>x - m\<bar>"
    using le_m by (simp add: B1_def)
  have old_lo: "B1 \<le> x - of_int (lo_n s) / of_int (lo_d s)"
    using I(9) le_old by (simp add: B_def)
  have old_hi: "0 < hi_d s \<longrightarrow> B1 \<le> of_int (hi_n s) / of_int (hi_d s) - x"
    using I(10) le_old by (auto simp: B_def)
  show "sb_inv x N s1"
    unfolding sb_inv_def s1_same
    using I(1-6) s1_best old_lo old_hi by (simp add: B1_def)
  {
    assume lt: "m < x"
    then have "real_of_int med_n < x * real_of_int med_d"
      using mdr by (simp add: m_def field_simps)
    then have a: "real_of_int med_n \<le> x * real_of_int med_d" by simp
    have b: "B1 \<le> x - m" using le_m lt by simp
    note c = old_hi
    show "sb_inv x N (s1\<lparr> lo_n := med_n, lo_d := med_d \<rparr>)"
      unfolding sb_inv_def
      using md I(2,6) uni_lo a b c s1_best s1_same
      by (simp add: B1_def m_def)
  }
  {
    assume ge: "\<not> m < x"
    then have a: "x * real_of_int med_d \<le> real_of_int med_n"
      using mdr by (simp add: m_def field_simps)
    have b: "B1 \<le> m - x" using le_m ge by simp
    note c = old_lo
    have md0: "0 \<le> med_d" using md by simp
    show "sb_inv x N (s1\<lparr> hi_n := med_n, hi_d := med_d \<rparr>)"
      unfolding sb_inv_def
      using md md0 I(1,5) uni_hi a b c s1_best s1_same
      by (simp add: B1_def m_def)
  }
qed

lemma sb_optimal:
  fixes x N :: real
  assumes inv: "sb_inv x N s"
    and exc: "N < of_int (lo_d s + hi_d s)"
    and q: "0 < q" "of_int q \<le> N"
  shows "\<bar>x - of_int (best_n s) / of_int (best_d s)\<bar> \<le> \<bar>x - of_int p / of_int q\<bar>"
proof -
  have I: "1 \<le> lo_d s" "0 \<le> hi_d s"
     "hi_n s * lo_d s - lo_n s * hi_d s = 1"
     "\<bar>x - of_int (best_n s) / of_int (best_d s)\<bar> \<le> x - of_int (lo_n s) / of_int (lo_d s)"
     "0 < hi_d s \<longrightarrow>
        \<bar>x - of_int (best_n s) / of_int (best_d s)\<bar> \<le> of_int (hi_n s) / of_int (hi_d s) - x"
    using inv by (simp_all add: sb_inv_def)
  have qr: "0 < real_of_int q" using q by simp
  have ldr: "0 < real_of_int (lo_d s)" using I(1) by simp
  have qlt: "q < lo_d s + hi_d s"
  proof -
    have "real_of_int q < real_of_int (lo_d s + hi_d s)" using q(2) exc by linarith
    then show ?thesis by (simp only: of_int_less_iff)
  qed
  have "p * lo_d s \<le> lo_n s * q \<or> (0 < hi_d s \<and> hi_n s * q \<le> p * hi_d s)
      \<or> (lo_n s * q < p * lo_d s \<and> (hi_d s = 0 \<or> p * hi_d s < hi_n s * q))"
    using I(2) by linarith
  then consider (below) "p * lo_d s \<le> lo_n s * q"
    | (above) "0 < hi_d s" "hi_n s * q \<le> p * hi_d s"
    | (between) "lo_n s * q < p * lo_d s" "hi_d s = 0 \<or> p * hi_d s < hi_n s * q"
    by blast
  then show ?thesis
  proof cases
    case below
    then have "real_of_int (p * lo_d s) \<le> real_of_int (lo_n s * q)" by (simp only: of_int_le_iff)
    then have "of_int p / of_int q \<le> of_int (lo_n s) / real_of_int (lo_d s)"
      using qr ldr by (simp add: field_simps)
    then show ?thesis using I(4) by linarith
  next
    case above
    have hdr: "0 < real_of_int (hi_d s)" using above(1) by simp
    from above(2) have "real_of_int (hi_n s * q) \<le> real_of_int (p * hi_d s)"
      by (simp only: of_int_le_iff)
    then have "of_int (hi_n s) / real_of_int (hi_d s) \<le> of_int p / of_int q"
      using qr hdr by (simp add: field_simps)
    then show ?thesis using I(5) above(1) by linarith
  next
    case between
    have u: "1 \<le> p * lo_d s - lo_n s * q" using between(1) by simp
    have v: "1 \<le> hi_n s * q - p * hi_d s"
    proof (cases "hi_d s = 0")
      case True
      then have "hi_n s * lo_d s = 1" using I(3) by simp
      then have "0 < hi_n s * lo_d s" by simp
      moreover have "0 < lo_d s" using I(1) by simp
      ultimately have "0 < hi_n s" by (rule zero_less_mult_pos2)
      then have "0 < hi_n s * q" using q(1) by (rule mult_pos_pos)
      then have "1 \<le> hi_n s * q" by simp
      then show ?thesis using True by simp
    next
      case False
      then show ?thesis using between(2) by simp
    qed
    have "q = q * (hi_n s * lo_d s - lo_n s * hi_d s)" using I(3) by simp
    also have "\<dots> = lo_d s * (hi_n s * q - p * hi_d s) + hi_d s * (p * lo_d s - lo_n s * q)"
      by (simp add: algebra_simps)
    finally have "q = lo_d s * (hi_n s * q - p * hi_d s) + hi_d s * (p * lo_d s - lo_n s * q)" .
    moreover have "lo_d s * 1 \<le> lo_d s * (hi_n s * q - p * hi_d s)"
      using I(1) v by (intro mult_left_mono) simp_all
    moreover have "hi_d s * 1 \<le> hi_d s * (p * lo_d s - lo_n s * q)"
      using I(2) u by (intro mult_left_mono) simp_all
    ultimately have "lo_d s + hi_d s \<le> q" by linarith
    then show ?thesis using qlt by simp
  qed
qed

lemma mediant_search_unfold:
  fixes x N \<tau> :: real
  assumes it: "iter s < 200" and md: "1 \<le> lo_d s + hi_d s"
  defines "med_n \<equiv> lo_n s + hi_n s" and "med_d \<equiv> lo_d s + hi_d s"
  defines "m \<equiv> real_of_int med_n / real_of_int med_d"
  defines "s1 \<equiv> (if Fin \<bar>x - m\<bar> < bestErr s
                   then s\<lparr> bestErr := Fin \<bar>x - m\<bar>, best_n := med_n, best_d := med_d \<rparr>
                   else s)"
  shows "mediant_search x (Fin N) (Fin \<tau>) s =
    (if N < of_int med_d then (s, DenExceeded)
     else if \<bar>x - m\<bar> < \<tau> then (s1, TolReached)
     else mediant_search x (Fin N) (Fin \<tau>)
            ((if m < x then s1\<lparr> lo_n := med_n, lo_d := med_d \<rparr>
              else s1\<lparr> hi_n := med_n, hi_d := med_d \<rparr>)\<lparr> iter := iter s + 1 \<rparr>))"
proof -
  have nz: "real_of_int (lo_d s) + real_of_int (hi_d s) \<noteq> 0"
    using md by (metis of_int_add of_int_eq_0_iff not_one_le_zero)
  show ?thesis
    using it nz
    by (subst mediant_search.simps)
       (simp add: Let_def med_n_def med_d_def m_def s1_def del: mediant_search.simps)
qed

lemma mediant_search_spec:
  fixes x N \<tau> :: real
  assumes "sb_inv x N s"
  shows "sb_inv x N (fst (mediant_search x (Fin N) (Fin \<tau>) s)) \<and>
     (snd (mediant_search x (Fin N) (Fin \<tau>) s) = DenExceeded \<longrightarrow>
        N < of_int (lo_d (fst (mediant_search x (Fin N) (Fin \<tau>) s))
                    + hi_d (fst (mediant_search x (Fin N) (Fin \<tau>) s)))) \<and>
     (snd (mediant_search x (Fin N) (Fin \<tau>) s) = TolReached \<longrightarrow>
        \<bar>x - of_int (best_n (fst (mediant_search x (Fin N) (Fin \<tau>) s)))
              / of_int (best_d (fst (mediant_search x (Fin N) (Fin \<tau>) s)))\<bar> < \<tau>)"
  using assms
proof (induction n \<equiv> "200 - iter s" arbitrary: s)
  case 0
  then have "\<not> iter s < 200" by simp
  then have "mediant_search x (Fin N) (Fin \<tau>) s = (s, CapReached)"
    by (subst mediant_search.simps) (simp del: mediant_search.simps)
  then show ?case using "0.prems" by simp
next
  case (Suc n)
  then have it: "iter s < 200" by simp
  have md: "1 \<le> lo_d s + hi_d s" using Suc.prems by (simp add: sb_inv_def)
  define med_n where "med_n = lo_n s + hi_n s"
  define med_d where "med_d = lo_d s + hi_d s"
  define m where "m = real_of_int med_n / real_of_int med_d"
  define s1 where "s1 = (if Fin \<bar>x - m\<bar> < bestErr s
                   then s\<lparr> bestErr := Fin \<bar>x - m\<bar>, best_n := med_n, best_d := med_d \<rparr>
                   else s)"
  define s2 where "s2 = (if m < x then s1\<lparr> lo_n := med_n, lo_d := med_d \<rparr>
              else s1\<lparr> hi_n := med_n, hi_d := med_d \<rparr>)\<lparr> iter := iter s + 1 \<rparr>"
  note unf = mediant_search_unfold[OF it md, of x N \<tau>, folded med_n_def med_d_def,
      folded m_def, folded s1_def, folded s2_def]
  show ?case
  proof (cases "N < of_int med_d")
    case True
    then have "mediant_search x (Fin N) (Fin \<tau>) s = (s, DenExceeded)"
      unfolding unf by (simp del: mediant_search.simps)
    then show ?thesis using Suc.prems True by (simp add: med_d_def)
  next
    case False
    then have den: "of_int (lo_d s + hi_d s) \<le> N" by (simp add: med_d_def)
    note st = sb_step[OF Suc.prems den, folded med_n_def med_d_def, folded m_def,
        folded s1_def]
    show ?thesis
    proof (cases "\<bar>x - m\<bar> < \<tau>")
      case True
      then have "mediant_search x (Fin N) (Fin \<tau>) s = (s1, TolReached)"
        unfolding unf using False by (simp del: mediant_search.simps)
      moreover have "\<bar>x - real_of_int (best_n s1) / real_of_int (best_d s1)\<bar> < \<tau>"
        using st(3) True by linarith
      ultimately show ?thesis using st(4) by simp
    next
      case nt: False
      have r: "mediant_search x (Fin N) (Fin \<tau>) s = mediant_search x (Fin N) (Fin \<tau>) s2"
        unfolding unf using False nt by (simp only: if_False)
      have "iter s1 = iter s" by (simp add: s1_def)
      then have i2: "iter s2 = iter s + 1" by (simp add: s2_def)
      have inv2: "sb_inv x N s2"
        using st(1,2) by (cases "m < x") (simp_all add: s2_def)
      have n: "n = 200 - iter s2" using Suc.hyps(2) i2 by simp
      show ?thesis unfolding r by (rule Suc.hyps(1)[OF n inv2])
    qed
  qed
qed

lemma round_error:
  fixes x :: real
  assumes "0 \<le> x"
  shows "\<bar>x - of_int (Math_round x)\<bar> \<le> x"
proof (cases "x < 1 / 2")
  case True
  then have "Math_round x = 0" using assms by (simp add: Math_round_def floor_eq_iff)
  then show ?thesis using assms by simp
next
  case False
  have "\<bar>x - of_int \<lfloor>x + 1 / 2\<rfloor>\<bar> \<le> 1 / 2" by linarith
  then show ?thesis using False by (simp add: Math_round_def)
qed

lemma sb_init_inv:
  fixes x :: real
  assumes "0 \<le> x"
  shows "sb_inv x N (sb_init x)"
  using assms round_error[OF assms] by (simp add: sb_inv_def sb_init_def)

lemma decimalToFraction_Fin:
  assumes N: "or_default maxDen (Fin 10000) = mx"
      and T: "or_default tol (Fin (1 / 10 ^ 9)) = Fin \<tau>"
  shows "decimalToFraction (Fin r) maxDen tol =
    (if \<bar>r\<bar> < \<tau> then \<lparr> num = Fin 0, den = Fin 1 \<rparr>
     else reduceFraction
            ((if r < 0 then - 1 else 1) * best_n (fst (mediant_search \<bar>r\<bar> mx (Fin \<tau>) (sb_init \<bar>r\<bar>))))
            (best_d (fst (mediant_search \<bar>r\<bar> mx (Fin \<tau>) (sb_init \<bar>r\<bar>)))))"
  unfolding decimalToFraction_def N T Let_def by (simp del: mediant_search.simps)

subsection \<open>The search of \<open>toFraction\<close>\<close>

text \<open>
  The second search starts from the bracket \<open>\<lfloor>x\<rfloor>/1\<close>, \<open>(\<lfloor>x\<rfloor>+1)/1\<close>, has no tolerance, stops at
  an exact mediant, and is capped at 10000 iterations.  Each iteration raises the larger
  denominator by at least one, so the cap is out of reach for a bound of at most 10000.
\<close>

lemma mediant_search_Fractions_unfold:
  fixes ax N :: real
  assumes it: "iter s < 10000" and md: "1 \<le> lo_d s + hi_d s"
  defines "med_n \<equiv> lo_n s + hi_n s" and "med_d \<equiv> lo_d s + hi_d s"
  defines "m \<equiv> real_of_int med_n / real_of_int med_d"
  defines "s1 \<equiv> (if Fin \<bar>ax - m\<bar> < bestErr s
                   then s\<lparr> bestErr := Fin \<bar>ax - m\<bar>, best_n := med_n, best_d := med_d \<rparr>
                   else s)"
  shows "mediant_search_Fractions ax (Fin N) s =
    (if N < of_int med_d then (s, DenExceeded)
     else if m < ax then
       mediant_search_Fractions ax (Fin N)
         ((s1\<lparr> lo_n := med_n, lo_d := med_d \<rparr>)\<lparr> iter := iter s + 1 \<rparr>)
     else if ax < m then
       mediant_search_Fractions ax (Fin N)
         ((s1\<lparr> hi_n := med_n, hi_d := med_d \<rparr>)\<lparr> iter := iter s + 1 \<rparr>)
     else (s1, ExactHit))"
proof -
  have nz: "real_of_int (lo_d s) + real_of_int (hi_d s) \<noteq> 0"
    using md by (metis of_int_add of_int_eq_0_iff not_one_le_zero)
  show ?thesis
    using it nz
    by (subst mediant_search_Fractions.simps)
       (simp add: Let_def med_n_def med_d_def m_def s1_def del: mediant_search_Fractions.simps)
qed

lemma mediant_search_Fractions_spec:
  fixes ax N :: real
  assumes "sb_inv ax N s" "1 \<le> hi_d s" "int (iter s) + 2 \<le> lo_d s + hi_d s"
  shows "sb_inv ax N (fst (mediant_search_Fractions ax (Fin N) s)) \<and>
     (snd (mediant_search_Fractions ax (Fin N) s) = DenExceeded \<longrightarrow>
        N < of_int (lo_d (fst (mediant_search_Fractions ax (Fin N) s))
                    + hi_d (fst (mediant_search_Fractions ax (Fin N) s)))) \<and>
     (snd (mediant_search_Fractions ax (Fin N) s) = CapReached \<longrightarrow>
        10002 \<le> lo_d (fst (mediant_search_Fractions ax (Fin N) s))
                    + hi_d (fst (mediant_search_Fractions ax (Fin N) s))) \<and>
     (snd (mediant_search_Fractions ax (Fin N) s) = ExactHit \<longrightarrow>
        \<bar>ax - of_int (best_n (fst (mediant_search_Fractions ax (Fin N) s)))
              / of_int (best_d (fst (mediant_search_Fractions ax (Fin N) s)))\<bar> \<le> 0) \<and>
     snd (mediant_search_Fractions ax (Fin N) s) \<noteq> TolReached"
  using assms
proof (induction n \<equiv> "10000 - iter s" arbitrary: s)
  case 0
  then have ni: "\<not> iter s < 10000" by simp
  then have "mediant_search_Fractions ax (Fin N) s = (s, CapReached)"
    by (subst mediant_search_Fractions.simps) (simp del: mediant_search_Fractions.simps)
  moreover have "10002 \<le> lo_d s + hi_d s" using ni "0.prems"(3) by linarith
  ultimately show ?case using "0.prems" by (simp del: mediant_search_Fractions.simps)
next
  case (Suc n)
  then have it: "iter s < 10000" by simp
  have I: "1 \<le> lo_d s" "0 \<le> hi_d s" using Suc.prems(1) by (simp_all add: sb_inv_def)
  have md: "1 \<le> lo_d s + hi_d s" using I by simp
  define med_n where "med_n = lo_n s + hi_n s"
  define med_d where "med_d = lo_d s + hi_d s"
  define m where "m = real_of_int med_n / real_of_int med_d"
  define s1 where "s1 = (if Fin \<bar>ax - m\<bar> < bestErr s
                   then s\<lparr> bestErr := Fin \<bar>ax - m\<bar>, best_n := med_n, best_d := med_d \<rparr>
                   else s)"
  define s2 where "s2 = (s1\<lparr> lo_n := med_n, lo_d := med_d \<rparr>)\<lparr> iter := iter s + 1 \<rparr>"
  define s3 where "s3 = (s1\<lparr> hi_n := med_n, hi_d := med_d \<rparr>)\<lparr> iter := iter s + 1 \<rparr>"
  note unf = mediant_search_Fractions_unfold[OF it md, of ax N, folded med_n_def med_d_def,
      folded m_def, folded s1_def, folded s2_def s3_def]
  have same: "iter s1 = iter s" "lo_d s1 = lo_d s" "hi_d s1 = hi_d s" by (simp_all add: s1_def)
  show ?case
  proof (cases "N < of_int med_d")
    case True
    then have "mediant_search_Fractions ax (Fin N) s = (s, DenExceeded)"
      unfolding unf by (simp del: mediant_search_Fractions.simps)
    then show ?thesis using Suc.prems(1) True
      by (simp add: med_d_def del: mediant_search_Fractions.simps)
  next
    case False
    then have den: "of_int (lo_d s + hi_d s) \<le> N" by (simp add: med_d_def)
    note st = sb_step[OF Suc.prems(1) den, folded med_n_def med_d_def, folded m_def,
        folded s1_def]
    show ?thesis
    proof (cases "m < ax")
      case True
      have r: "mediant_search_Fractions ax (Fin N) s = mediant_search_Fractions ax (Fin N) s2"
        unfolding unf using False True by (simp only: if_False if_True)
      have inv2: "sb_inv ax N s2" using st(1)[OF True] by (simp add: s2_def)
      have h2: "1 \<le> hi_d s2" using Suc.prems(2) same by (simp add: s2_def)
      have g2: "int (iter s2) + 2 \<le> lo_d s2 + hi_d s2"
        using Suc.prems(2,3) same by (simp add: s2_def med_d_def)
      have n: "n = 10000 - iter s2" using Suc.hyps(2) same by (simp add: s2_def)
      show ?thesis unfolding r by (rule Suc.hyps(1)[OF n inv2 h2 g2])
    next
      case nlt: False
      show ?thesis
      proof (cases "ax < m")
        case True
        have r: "mediant_search_Fractions ax (Fin N) s = mediant_search_Fractions ax (Fin N) s3"
          unfolding unf using False nlt True by (simp only: if_False if_True)
        have inv3: "sb_inv ax N s3" using st(2)[OF nlt] by (simp add: s3_def)
        have h3: "1 \<le> hi_d s3" using I by (simp add: s3_def med_d_def)
        have g3: "int (iter s3) + 2 \<le> lo_d s3 + hi_d s3"
          using Suc.prems(3) I same by (simp add: s3_def med_d_def)
        have n: "n = 10000 - iter s3" using Suc.hyps(2) same by (simp add: s3_def)
        show ?thesis unfolding r by (rule Suc.hyps(1)[OF n inv3 h3 g3])
      next
        case False
        then have eq: "\<bar>ax - m\<bar> = 0" using nlt by simp
        have "mediant_search_Fractions ax (Fin N) s = (s1, ExactHit)"
          unfolding unf using \<open>\<not> N < of_int med_d\<close> nlt False
          by (simp del: mediant_search_Fractions.simps)
        moreover have "\<bar>ax - real_of_int (best_n s1) / real_of_int (best_d s1)\<bar> \<le> 0"
          using st(3) eq by simp
        ultimately show ?thesis using st(4) by (simp del: mediant_search_Fractions.simps)
      qed
    qed
  qed
qed

lemma mediant_search_Fractions_cap:
  fixes ax N :: real
  assumes "1 \<le> lo_d s" "1 \<le> hi_d s"
    and "of_int (lo_d s) \<le> N" "of_int (hi_d s) \<le> N"
    and "int (iter s) + 1 \<le> max (lo_d s) (hi_d s)"
    and "N \<le> 10000"
  shows "snd (mediant_search_Fractions ax (Fin N) s) \<noteq> CapReached"
  using assms
proof (induction n \<equiv> "10000 - iter s" arbitrary: s)
  case 0
  then have "10001 \<le> max (lo_d s) (hi_d s)" by simp
  then have "10001 \<le> lo_d s \<or> 10001 \<le> hi_d s" by (simp add: le_max_iff_disj)
  then have "10001 \<le> real_of_int (lo_d s) \<or> 10001 \<le> real_of_int (hi_d s)" by auto
  then have False using "0.prems"(3,4,6) by linarith
  then show ?case ..
next
  case (Suc n)
  then have it: "iter s < 10000" by simp
  have md: "1 \<le> lo_d s + hi_d s" using Suc.prems(1,2) by simp
  define med_n where "med_n = lo_n s + hi_n s"
  define med_d where "med_d = lo_d s + hi_d s"
  define m where "m = real_of_int med_n / real_of_int med_d"
  define s1 where "s1 = (if Fin \<bar>ax - m\<bar> < bestErr s
                   then s\<lparr> bestErr := Fin \<bar>ax - m\<bar>, best_n := med_n, best_d := med_d \<rparr>
                   else s)"
  define s2 where "s2 = (s1\<lparr> lo_n := med_n, lo_d := med_d \<rparr>)\<lparr> iter := iter s + 1 \<rparr>"
  define s3 where "s3 = (s1\<lparr> hi_n := med_n, hi_d := med_d \<rparr>)\<lparr> iter := iter s + 1 \<rparr>"
  note unf = mediant_search_Fractions_unfold[OF it md, of ax N, folded med_n_def med_d_def,
      folded m_def, folded s1_def, folded s2_def s3_def]
  have same: "iter s1 = iter s" "lo_d s1 = lo_d s" "hi_d s1 = hi_d s" by (simp_all add: s1_def)
  have grow: "int (iter s) + 2 \<le> med_d"
    using Suc.prems(1,2,5) by (simp add: med_d_def max_def split: if_splits)
  show ?case
  proof (cases "N < of_int med_d")
    case True
    then have "mediant_search_Fractions ax (Fin N) s = (s, DenExceeded)"
      unfolding unf by (simp del: mediant_search_Fractions.simps)
    then show ?thesis by (simp del: mediant_search_Fractions.simps)
  next
    case False
    then have den: "real_of_int med_d \<le> N" by simp
    show ?thesis
    proof (cases "m < ax")
      case True
      have r: "mediant_search_Fractions ax (Fin N) s = mediant_search_Fractions ax (Fin N) s2"
        unfolding unf using False True by (simp only: if_False if_True)
      have n: "n = 10000 - iter s2" using Suc.hyps(2) same by (simp add: s2_def)
      have a: "1 \<le> lo_d s2" "1 \<le> hi_d s2" using Suc.prems(1,2) same
        by (simp_all add: s2_def med_d_def)
      have b: "real_of_int (lo_d s2) \<le> N" "real_of_int (hi_d s2) \<le> N"
        using den Suc.prems(4) same by (simp_all add: s2_def)
      have c: "int (iter s2) + 1 \<le> max (lo_d s2) (hi_d s2)"
        using grow same by (simp add: s2_def)
      show ?thesis unfolding r by (rule Suc.hyps(1)[OF n a b c Suc.prems(6)])
    next
      case nlt: False
      show ?thesis
      proof (cases "ax < m")
        case True
        have r: "mediant_search_Fractions ax (Fin N) s = mediant_search_Fractions ax (Fin N) s3"
          unfolding unf using False nlt True by (simp only: if_False if_True)
        have n: "n = 10000 - iter s3" using Suc.hyps(2) same by (simp add: s3_def)
        have a: "1 \<le> lo_d s3" "1 \<le> hi_d s3" using Suc.prems(1,2) same
          by (simp_all add: s3_def med_d_def)
        have b: "real_of_int (lo_d s3) \<le> N" "real_of_int (hi_d s3) \<le> N"
          using den Suc.prems(3) same by (simp_all add: s3_def)
        have c: "int (iter s3) + 1 \<le> max (lo_d s3) (hi_d s3)"
          using grow same by (simp add: s3_def)
        show ?thesis unfolding r by (rule Suc.hyps(1)[OF n a b c Suc.prems(6)])
      next
        case False
        have "mediant_search_Fractions ax (Fin N) s = (s1, ExactHit)"
          unfolding unf using \<open>\<not> N < of_int med_d\<close> nlt False
          by (simp del: mediant_search_Fractions.simps)
        then show ?thesis by (simp del: mediant_search_Fractions.simps)
      qed
    qed
  qed
qed

lemma sb_init_Fractions_inv:
  fixes ax :: real
  assumes "0 \<le> ax"
  shows "sb_inv ax N (sb_init_Fractions ax)"
    and "1 \<le> hi_d (sb_init_Fractions ax)"
    and "int (iter (sb_init_Fractions ax)) + 2
           \<le> lo_d (sb_init_Fractions ax) + hi_d (sb_init_Fractions ax)"
proof -
  have f: "of_int \<lfloor>ax\<rfloor> \<le> ax" "ax \<le> of_int \<lfloor>ax\<rfloor> + 1" by linarith+
  show "sb_inv ax N (sb_init_Fractions ax)"
    using f by (auto simp add: sb_inv_def sb_init_Fractions_def Let_def Math_floor_def)
  show "1 \<le> hi_d (sb_init_Fractions ax)"
    by (simp add: sb_init_Fractions_def Let_def)
  show "int (iter (sb_init_Fractions ax)) + 2
           \<le> lo_d (sb_init_Fractions ax) + hi_d (sb_init_Fractions ax)"
    by (simp add: sb_init_Fractions_def Let_def)
qed

lemma toFraction_Fin:
  assumes M: "or_default maxDen (Fin 1000) = mx"
  shows "toFraction (Fin r) maxDen =
    (if r = 0 then Some \<lparr> fr_n = Fin 0, fr_d = Fin 1 \<rparr>
     else if 10 ^ 10 < \<bar>r\<bar> then None
     else if \<bar>r\<bar> = of_int \<lfloor>\<bar>r\<bar>\<rfloor> then
       Some \<lparr> fr_n = Fin (of_int ((if r < 0 then - 1 else 1) * Math_round \<bar>r\<bar>)), fr_d = Fin 1 \<rparr>
     else Some (reduce
            ((if r < 0 then - 1 else 1)
               * best_n (fst (mediant_search_Fractions \<bar>r\<bar> mx (sb_init_Fractions \<bar>r\<bar>))))
            (best_d (fst (mediant_search_Fractions \<bar>r\<bar> mx (sb_init_Fractions \<bar>r\<bar>))))))"
  unfolding toFraction_def M Let_def Math_floor_def
  by (simp del: mediant_search_Fractions.simps)

subsection \<open>Runs on concrete inputs\<close>

lemma third_decimal:
  "decimalToFraction (Fin (1 / 3)) None None = \<lparr> num = Fin 1, den = Fin 3 \<rparr>"
  by (simp add: decimalToFraction_def or_default_def Let_def sb_init_def Math_round_def
        reduceFraction_def gcd_fraction_def)

lemma half_toFraction:
  "toFraction (Fin (1 / 2)) None = Some \<lparr> fr_n = Fin 1, fr_d = Fin 2 \<rparr>"
  by (simp add: toFraction_def or_default_def Let_def sb_init_Fractions_def Math_floor_def
        Math_round_def reduce_def gcd_Fractions_def)

lemma toFraction_501_2:
  "toFraction (Fin (501 / 2)) None = Some \<lparr> fr_n = Fin 501, fr_d = Fin 2 \<rparr>"
  by (simp add: toFraction_def or_default_def Let_def sb_init_Fractions_def Math_floor_def
        Math_round_def reduce_def gcd_Fractions_def)

lemma toFraction_large: "toFraction (Fin (10 ^ 11)) None = None"
  by (simp add: toFraction_def or_default_def)

lemma capped_run:
  assumes "i \<le> 200"
  shows "mediant_search (501 / 2) (Fin 10000) (Fin (1 / 10 ^ 9))
           \<lparr> lo_n = int i, lo_d = 1, hi_n = 1, hi_d = 0, best_n = 251, best_d = 1,
             bestErr = Fin (1 / 2), iter = i \<rparr>
         = (\<lparr> lo_n = 200, lo_d = 1, hi_n = 1, hi_d = 0, best_n = 251, best_d = 1,
              bestErr = Fin (1 / 2), iter = 200 \<rparr>, CapReached)"
  using assms
proof (induction n \<equiv> "200 - i" arbitrary: i)
  case 0
  then have "i = 200" by simp
  then show ?case by (subst mediant_search.simps) (simp del: mediant_search.simps)
next
  case (Suc n)
  then have i: "i < 200" and n: "n = 200 - (i + 1)" and i1: "i + 1 \<le> 200" by simp_all
  have r: "real i + 1 \<le> 200" using i1 by linarith
  then have e: "\<bar>501 / 2 - (1 + real i)\<bar> = 501 / 2 - (1 + real i)" by simp
  have f: "\<not> 501 / 2 - (1 + real i) < 1 / 2" "\<not> (501 / 2 - (1 + real i)) * 1000000000 < 1"
          "1 + real i < 501 / 2" "\<not> 499 < real i * 2" "\<not> (499 - real i * 2) * 1000000000 < 2"
          "real i * 2 < 499"
    using r by simp_all
  have "mediant_search (501 / 2) (Fin 10000) (Fin (1 / 10 ^ 9))
           \<lparr> lo_n = int i, lo_d = 1, hi_n = 1, hi_d = 0, best_n = 251, best_d = 1,
             bestErr = Fin (1 / 2), iter = i \<rparr>
        = mediant_search (501 / 2) (Fin 10000) (Fin (1 / 10 ^ 9))
           \<lparr> lo_n = int (i + 1), lo_d = 1, hi_n = 1, hi_d = 0, best_n = 251, best_d = 1,
             bestErr = Fin (1 / 2), iter = i + 1 \<rparr>"
    using i e f
    by (subst mediant_search.simps) (simp add: Let_def add.commute del: mediant_search.simps)
  then show ?case using Suc.hyps(1)[OF n i1] by simp
qed

subsection \<open>The nearest fraction\<close>

lemma decimalToFraction_nearest:
  fixes r N \<tau> :: real
  assumes N: "or_default maxDen (Fin 10000) = Fin N"
      and T: "or_default tol (Fin (1 / 10 ^ 9)) = Fin \<tau>"
      and N1: "1 \<le> N"
      and nc: "\<bar>r\<bar> < \<tau> \<or> snd (mediant_search \<bar>r\<bar> (Fin N) (Fin \<tau>) (sb_init \<bar>r\<bar>)) \<noteq> CapReached"
  shows "\<exists>n d. decimalToFraction (Fin r) maxDen tol
                  = \<lparr> num = Fin (of_int n), den = Fin (of_int d) \<rparr> \<and>
           0 < d \<and> of_int d \<le> N \<and>
           (\<bar>r - of_int n / of_int d\<bar> < \<tau> \<or>
            (\<forall>p q. 0 < q \<and> of_int q \<le> N \<longrightarrow>
                \<bar>r - of_int n / of_int d\<bar> \<le> \<bar>r - of_int p / of_int q\<bar>))"
proof (cases "\<bar>r\<bar> < \<tau>")
  case True
  then have "decimalToFraction (Fin r) maxDen tol = \<lparr> num = Fin (of_int 0), den = Fin (of_int 1) \<rparr>"
    by (simp add: decimalToFraction_Fin[OF N T] del: mediant_search.simps)
  then show ?thesis using True N1 by (intro exI[of _ 0] exI[of _ 1]) simp
next
  case False
  define x where "x = \<bar>r\<bar>"
  define sg :: int where "sg = (if r < 0 then - 1 else 1)"
  define res where "res = mediant_search x (Fin N) (Fin \<tau>) (sb_init x)"
  define s where "s = fst res"
  have x0: "0 \<le> x" by (simp add: x_def)
  have rx: "r = real_of_int sg * x" by (simp add: sg_def x_def)
  note sp = mediant_search_spec[OF sb_init_inv[OF x0, of N], of \<tau>, folded res_def, folded s_def]
  have inv: "sb_inv x N s" using sp by (simp del: mediant_search.simps)
  have bd: "1 \<le> best_d s" "best_d s = 1 \<or> of_int (best_d s) \<le> N"
    using inv by (simp_all add: sb_inv_def)
  then have bdN: "real_of_int (best_d s) \<le> N" using N1 by auto
  have bd0: "best_d s \<noteq> 0" using bd(1) by simp
  have dec: "decimalToFraction (Fin r) maxDen tol = reduceFraction (sg * best_n s) (best_d s)"
    using False
    by (simp add: decimalToFraction_Fin[OF N T] sg_def s_def res_def x_def
          del: mediant_search.simps)
  from reduceFraction_spec[OF bd0, of "sg * best_n s"] obtain n d where
    nd: "reduceFraction (sg * best_n s) (best_d s) = \<lparr> num = Fin (of_int n), den = Fin (of_int d) \<rparr>"
        "0 < d" "d \<le> \<bar>best_d s\<bar>"
        "real_of_int n * real_of_int (best_d s) = real_of_int (sg * best_n s) * real_of_int d"
    by blast
  have dN: "real_of_int d \<le> N"
  proof -
    have "d \<le> best_d s" using nd(3) bd(1) by simp
    then have "real_of_int d \<le> real_of_int (best_d s)" by (simp only: of_int_le_iff)
    then show ?thesis using bdN by linarith
  qed
  have val: "real_of_int n / real_of_int d = real_of_int sg * (real_of_int (best_n s) / real_of_int (best_d s))"
    using nd(2,4) bd(1) by (simp add: field_simps)
  have sg2: "\<bar>real_of_int sg\<bar> = 1" "real_of_int sg * real_of_int sg = 1" by (simp_all add: sg_def)
  have flip: "\<bar>r - real_of_int sg * y\<bar> = \<bar>x - y\<bar>" for y
  proof -
    have "r - real_of_int sg * y = real_of_int sg * (x - y)" by (simp add: rx algebra_simps)
    then show ?thesis by (simp add: abs_mult sg2)
  qed
  have err: "\<bar>r - real_of_int n / real_of_int d\<bar>
               = \<bar>x - real_of_int (best_n s) / real_of_int (best_d s)\<bar>"
    unfolding val by (rule flip)
  from nc False have ex: "snd res \<noteq> CapReached"
    by (simp add: res_def x_def del: mediant_search.simps)
  have "\<bar>r - of_int n / of_int d\<bar> < \<tau> \<or>
            (\<forall>p q. 0 < q \<and> of_int q \<le> N \<longrightarrow>
                \<bar>r - of_int n / of_int d\<bar> \<le> \<bar>r - of_int p / of_int q\<bar>)"
  proof (cases "snd res")
    case DenExceeded
    then have exc: "N < of_int (lo_d s + hi_d s)" using sp by (simp del: mediant_search.simps)
    have "\<bar>r - of_int n / of_int d\<bar> \<le> \<bar>r - of_int p / of_int q\<bar>"
      if q: "0 < q" "real_of_int q \<le> N" for p q
    proof -
      have "\<bar>x - real_of_int (best_n s) / real_of_int (best_d s)\<bar>
              \<le> \<bar>x - real_of_int (sg * p) / real_of_int q\<bar>"
        by (rule sb_optimal[OF inv exc q])
      also have "\<dots> = \<bar>r - real_of_int sg * (real_of_int (sg * p) / real_of_int q)\<bar>"
        by (rule flip[symmetric])
      also have "real_of_int sg * (real_of_int (sg * p) / real_of_int q) = real_of_int p / real_of_int q"
      proof -
        have "real_of_int sg * (real_of_int (sg * p) / real_of_int q)
                = (real_of_int sg * real_of_int sg) * real_of_int p / real_of_int q"
          by simp
        then show ?thesis by (simp only: sg2(2) mult_1)
      qed
      finally show ?thesis unfolding err .
    qed
    then show ?thesis by blast
  next
    case TolReached
    then have "\<bar>x - of_int (best_n s) / of_int (best_d s)\<bar> < \<tau>"
      using sp by (simp del: mediant_search.simps)
    then show ?thesis unfolding err by simp
  next
    case ExactHit
    have "snd (mediant_search x (Fin N) (Fin \<tau>) s') \<noteq> ExactHit" for s'
    proof (induction n \<equiv> "200 - iter s'" arbitrary: s')
      case 0
      then have "\<not> iter s' < 200" by simp
      then show ?case by (subst mediant_search.simps) (simp del: mediant_search.simps)
    next
      case (Suc n)
      then have it: "iter s' < 200" by simp
      have step: "snd (mediant_search x (Fin N) (Fin \<tau>) (s''\<lparr> iter := iter s' + 1 \<rparr>)) \<noteq> ExactHit"
        for s''
        using Suc.hyps(1)[of "s''\<lparr> iter := iter s' + 1 \<rparr>"] Suc.hyps(2) it
        by (simp del: mediant_search.simps)
      show ?case
        using it step
        by (subst mediant_search.simps) (simp add: Let_def del: mediant_search.simps)
    qed
    then show ?thesis using ExactHit by (simp add: res_def del: mediant_search.simps)
  next
    case CapReached
    then show ?thesis using ex by simp
  qed
  then show ?thesis using dec nd(1,2) dN by (intro exI[of _ n] exI[of _ d]) simp
qed

lemma toFraction_nearest:
  fixes r M :: real
  assumes M: "or_default maxDen (Fin 1000) = Fin M"
      and M1: "1 \<le> M"
      and big: "\<bar>r\<bar> \<le> 10 ^ 10"
      and nc: "M \<le> 10000 \<or>
               snd (mediant_search_Fractions \<bar>r\<bar> (Fin M) (sb_init_Fractions \<bar>r\<bar>)) \<noteq> CapReached"
  shows "\<exists>n d. toFraction (Fin r) maxDen
                  = Some \<lparr> fr_n = Fin (of_int n), fr_d = Fin (of_int d) \<rparr> \<and>
           0 < d \<and> of_int d \<le> M \<and>
           (\<forall>p q. 0 < q \<and> of_int q \<le> M \<longrightarrow>
                \<bar>r - of_int n / of_int d\<bar> \<le> \<bar>r - of_int p / of_int q\<bar>)"
proof -
  define x where "x = \<bar>r\<bar>"
  define sg :: int where "sg = (if r < 0 then - 1 else 1)"
  have x0: "0 \<le> x" by (simp add: x_def)
  have rx: "r = real_of_int sg * x" by (simp add: sg_def x_def)
  have nb: "\<not> 10 ^ 10 < \<bar>r\<bar>" using big by simp
  note tf = toFraction_Fin[OF M, of r, folded sg_def, folded x_def]
  consider (zero) "r = 0" | (whole) "r \<noteq> 0" "x = of_int \<lfloor>x\<rfloor>" | (search) "r \<noteq> 0" "x \<noteq> of_int \<lfloor>x\<rfloor>"
    by blast
  then show ?thesis
  proof cases
    case zero
    then have "toFraction (Fin r) maxDen = Some \<lparr> fr_n = Fin (of_int 0), fr_d = Fin (of_int 1) \<rparr>"
      unfolding tf by simp
    then show ?thesis using zero M1 by (intro exI[of _ 0] exI[of _ 1]) simp
  next
    case whole
    have rd: "Math_round x = \<lfloor>x\<rfloor>"
    proof -
      have "\<lfloor>x + 1 / 2\<rfloor> = \<lfloor>x\<rfloor>" using whole(2) by (intro floor_unique) linarith+
      then show ?thesis by (simp add: Math_round_def)
    qed
    have w: "\<bar>r\<bar> = real_of_int \<lfloor>\<bar>r\<bar>\<rfloor>" using whole(2) by (simp only: x_def)
    have "toFraction (Fin r) maxDen
            = Some \<lparr> fr_n = Fin (of_int (sg * Math_round x)), fr_d = Fin (of_int 1) \<rparr>"
      unfolding toFraction_Fin[OF M] using whole(1) nb w
      by (simp only: if_False if_True sg_def x_def of_int_1 simp_thms)
    moreover have "r - real_of_int (sg * Math_round x) / real_of_int 1 = 0"
      using whole(2) rx rd by simp
    ultimately show ?thesis using M1 by (intro exI[of _ "sg * Math_round x"] exI[of _ 1]) simp
  next
    case search
    define res where "res = mediant_search_Fractions x (Fin M) (sb_init_Fractions x)"
    define s where "s = fst res"
    note ini = sb_init_Fractions_inv(1)[OF x0, of M] sb_init_Fractions_inv(2,3)[OF x0]
    note sp = mediant_search_Fractions_spec[OF ini, folded res_def, folded s_def]
    have inv: "sb_inv x M s" using sp by (simp del: mediant_search_Fractions.simps)
    have bd: "1 \<le> best_d s" "best_d s = 1 \<or> of_int (best_d s) \<le> M"
      using inv by (simp_all add: sb_inv_def)
    then have bdN: "real_of_int (best_d s) \<le> M" using M1 by auto
    have bd0: "best_d s \<noteq> 0" using bd(1) by simp
    have dec: "toFraction (Fin r) maxDen = Some (reduce (sg * best_n s) (best_d s))"
      unfolding tf using search nb
      by (simp add: s_def res_def x_def del: mediant_search_Fractions.simps)
    from reduce_value[OF bd0, of "sg * best_n s"] obtain n d where
      nd: "reduce (sg * best_n s) (best_d s) = \<lparr> fr_n = Fin (of_int n), fr_d = Fin (of_int d) \<rparr>"
          "0 < d" "d \<le> \<bar>best_d s\<bar>"
          "real_of_int n * real_of_int (best_d s) = real_of_int (sg * best_n s) * real_of_int d"
      by blast
    have dN: "real_of_int d \<le> M"
    proof -
      have "d \<le> best_d s" using nd(3) bd(1) by simp
      then have "real_of_int d \<le> real_of_int (best_d s)" by (simp only: of_int_le_iff)
      then show ?thesis using bdN by linarith
    qed
    have val: "real_of_int n / real_of_int d
                 = real_of_int sg * (real_of_int (best_n s) / real_of_int (best_d s))"
      using nd(2,4) bd(1) by (simp add: field_simps)
    have sg2: "\<bar>real_of_int sg\<bar> = 1" "real_of_int sg * real_of_int sg = 1"
      by (simp_all add: sg_def)
    have flip: "\<bar>r - real_of_int sg * y\<bar> = \<bar>x - y\<bar>" for y
    proof -
      have "r - real_of_int sg * y = real_of_int sg * (x - y)" by (simp add: rx algebra_simps)
      then show ?thesis by (simp add: abs_mult sg2)
    qed
    have err: "\<bar>r - real_of_int n / real_of_int d\<bar>
                 = \<bar>x - real_of_int (best_n s) / real_of_int (best_d s)\<bar>"
      unfolding val by (rule flip)
    have ex: "snd res \<noteq> CapReached"
    proof (cases "M \<le> 10000")
      case True
      have i: "lo_d (sb_init_Fractions x) = 1" "hi_d (sb_init_Fractions x) = 1"
              "iter (sb_init_Fractions x) = 0"
        by (simp_all add: sb_init_Fractions_def Let_def)
      show ?thesis unfolding res_def
        by (rule mediant_search_Fractions_cap) (use i M1 True in simp_all)
    next
      case False
      then show ?thesis using nc by (simp add: res_def x_def del: mediant_search_Fractions.simps)
    qed
    have "\<bar>r - of_int n / of_int d\<bar> \<le> \<bar>r - of_int p / of_int q\<bar>"
      if q: "0 < q" "real_of_int q \<le> M" for p q
    proof (cases "snd res")
      case DenExceeded
      then have exc: "M < of_int (lo_d s + hi_d s)"
        using sp by (simp del: mediant_search_Fractions.simps)
      have "\<bar>x - real_of_int (best_n s) / real_of_int (best_d s)\<bar>
              \<le> \<bar>x - real_of_int (sg * p) / real_of_int q\<bar>"
        by (rule sb_optimal[OF inv exc q])
      also have "\<dots> = \<bar>r - real_of_int sg * (real_of_int (sg * p) / real_of_int q)\<bar>"
        by (rule flip[symmetric])
      also have "real_of_int sg * (real_of_int (sg * p) / real_of_int q)
                   = real_of_int p / real_of_int q"
      proof -
        have "real_of_int sg * (real_of_int (sg * p) / real_of_int q)
                = (real_of_int sg * real_of_int sg) * real_of_int p / real_of_int q"
          by simp
        then show ?thesis by (simp only: sg2(2) mult_1)
      qed
      finally show ?thesis unfolding err .
    next
      case TolReached
      then show ?thesis using sp by (simp del: mediant_search_Fractions.simps)
    next
      case ExactHit
      then have "\<bar>x - of_int (best_n s) / of_int (best_d s)\<bar> \<le> 0"
        using sp by (simp del: mediant_search_Fractions.simps)
      then have "\<bar>r - real_of_int n / real_of_int d\<bar> \<le> 0" unfolding err .
      also have "0 \<le> \<bar>r - of_int p / of_int q\<bar>" by simp
      finally show ?thesis .
    next
      case CapReached
      then show ?thesis using ex by simp
    qed
    then show ?thesis using dec nd(1,2) dN by (intro exI[of _ n] exI[of _ d]) simp
  qed
qed

section \<open>The claims on the fractions\<close>

text \<open>
  Claim C6.  \<open>decimalToFraction\<close> is documented to return the nearest reduced fraction with
  a denominator at most \<open>maxDen\<close>, but its search is cut after 200 iterations wherever it
  stands.  For \<open>x = 250.5\<close> with the default bound and tolerance the 200 iterations visit
  \<open>1/1, \<dots>, 200/1\<close>, and \<open>251/1\<close> is returned with the error \<open>0.5\<close>, although \<open>501/2\<close> has
  the denominator \<open>2 \<le> 10000\<close> and the error \<open>0\<close>; the sibling \<open>toFraction\<close>, which starts
  its bracket at \<open>\<lfloor>x\<rfloor>\<close>, returns \<open>501/2\<close>.  Where the cap is not reached both searches
  return a nearest fraction (\<open>decimalToFraction_nearest\<close>, \<open>toFraction_nearest\<close>).
\<close>

theorem iteration_cap_defect:
  "decimalToFraction (Fin (501 / 2)) None None = \<lparr> num = Fin 251, den = Fin 1 \<rparr> \<and>
   toFraction (Fin (501 / 2)) None = Some \<lparr> fr_n = Fin 501, fr_d = Fin 2 \<rparr>"
proof -
  have h: "or_default None (Fin 10000) = Fin 10000"
          "or_default None (Fin (1 / 10 ^ 9)) = Fin (1 / 10 ^ 9)"
    by (simp_all add: or_default_def)
  have ab: "\<bar>501 / 2 :: real\<bar> = 501 / 2" by simp
  have i: "sb_init (501 / 2) =
      \<lparr> lo_n = int 0, lo_d = 1, hi_n = 1, hi_d = 0, best_n = 251, best_d = 1,
        bestErr = Fin (1 / 2), iter = 0 \<rparr>"
    by (simp add: sb_init_def Math_round_def)
  have run: "mediant_search (501 / 2) (Fin 10000) (Fin (1 / 10 ^ 9)) (sb_init (501 / 2))
      = (\<lparr> lo_n = 200, lo_d = 1, hi_n = 1, hi_d = 0, best_n = 251, best_d = 1,
              bestErr = Fin (1 / 2), iter = 200 \<rparr>, CapReached)"
    unfolding i by (rule capped_run) simp
  have "decimalToFraction (Fin (501 / 2)) None None = reduceFraction (1 * 251) 1"
    unfolding decimalToFraction_Fin[OF h] ab run by simp
  also have "\<dots> = \<lparr> num = Fin 251, den = Fin 1 \<rparr>"
    by (simp add: reduceFraction_def gcd_fraction_def Let_def)
  finally have dec: "decimalToFraction (Fin (501 / 2)) None None
                       = \<lparr> num = Fin 251, den = Fin 1 \<rparr>" .
  have sib: "toFraction (Fin (501 / 2)) None = Some \<lparr> fr_n = Fin 501, fr_d = Fin 2 \<rparr>"
    by (rule toFraction_501_2)
  show ?thesis using dec sib by (rule conjI)
qed

text \<open>
  Claim C7.  For every finite \<open>x\<close> and every bound and tolerance, the fraction returned by
  \<open>decimalToFraction\<close> is an integer numerator over a positive integer denominator, the
  two coprime, with zero as \<open>0/1\<close>; so is every fraction returned by \<open>toFraction\<close>; and so
  are the results of \<open>reduceFraction\<close> and of \<open>reduce\<close> on integers with a non-zero
  denominator, which is what the two approximators pass them.
\<close>

theorem fractions_are_reduced:
  "reduced (num (decimalToFraction (Fin r) maxDen tol))
           (den (decimalToFraction (Fin r) maxDen tol)) \<and>
   (d \<noteq> 0 \<longrightarrow> reduced (num (reduceFraction n d)) (den (reduceFraction n d))) \<and>
   (\<forall>f. toFraction (Fin r') maxDen' = Some f \<longrightarrow> reduced (fr_n f) (fr_d f)) \<and>
   (d' \<noteq> 0 \<longrightarrow> reduced (fr_n (reduce n' d')) (fr_d (reduce n' d')))"
  using decimalToFraction_reduced reduceFraction_reduced toFraction_reduced reduce_reduced
  by blast

text \<open>
  The theorem at \<open>x = 0.5\<close>, where \<open>toFraction\<close> returns \<open>1/2\<close>, and at the reductions of
  \<open>2/4\<close> and of \<open>3/(-6)\<close>.
\<close>

theorem fractions_are_reduced_witness:
  "reduced (num (decimalToFraction (Fin (1 / 2)) None None))
           (den (decimalToFraction (Fin (1 / 2)) None None)) \<and>
   reduced (num (reduceFraction 2 4)) (den (reduceFraction 2 4)) \<and>
   reduced (fr_n \<lparr> fr_n = Fin 1, fr_d = Fin 2 \<rparr>) (fr_d \<lparr> fr_n = Fin 1, fr_d = Fin 2 \<rparr>) \<and>
   reduced (fr_n (reduce 3 (- 6))) (fr_d (reduce 3 (- 6)))"
proof -
  have a: "(4::int) \<noteq> 0" "(- 6::int) \<noteq> 0" by simp_all
  from fractions_are_reduced [of "1 / 2" None None 4 2 "1 / 2" None "- 6" 3] a half_toFraction
  show ?thesis by blast
qed

text \<open>
  Claim C8, amended.  For every non-finite \<open>x\<close>, \<open>decimalToFraction\<close> returns the sentinel
  with the denominator \<open>1\<close> and the numerator \<open>+Infinity\<close> for \<open>x = +Infinity\<close> and
  \<open>-Infinity\<close> for \<open>x = -Infinity\<close> and for \<open>x = NaN\<close>; the standalone \<open>toFraction\<close> returns
  \<open>null\<close> for every non-finite \<open>x\<close>.
\<close>

theorem non_finite_inputs:
  "decimalToFraction PInf maxDen tol = \<lparr> num = PInf, den = Fin 1 \<rparr> \<and>
   decimalToFraction NInf maxDen tol = \<lparr> num = NInf, den = Fin 1 \<rparr> \<and>
   decimalToFraction NaN maxDen tol = \<lparr> num = NInf, den = Fin 1 \<rparr> \<and>
   toFraction PInf maxDen' = None \<and> toFraction NInf maxDen' = None \<and>
   toFraction NaN maxDen' = None"
  by (simp add: decimalToFraction_def toFraction_def Let_def less_jsnum_def)

text \<open>
  Claim C8 as stated fails on the standalone approximator: \<open>toFraction(Infinity)\<close> is
  \<open>null\<close>.
\<close>

theorem toFraction_infinity_counterexample:
  "toFraction PInf None = None"
  by (simp add: toFraction_def)

end
